theory Spec2Isabelle
  imports Main
begin

section \<open>Kernel structures of \<^verbatim>\<open>phi_import_system.py\<close>\<close>

text \<open>
  Python objects are shared by reference: a \<^verbatim>\<open>Rule\<close> reached through two modules is one
  object, and \<^verbatim>\<open>rule.active = False\<close> is seen through every path. The model therefore
  keeps an explicit store: a rule reference is an index into \<open>rule_objs\<close>, a module
  reference an index into \<open>mod_objs\<close>, and a constructor call appends to the store.

  Operands are opaque values of type \<open>'a\<close>; a predicate or a transformation that raises
  an \<^verbatim>\<open>Exception\<close> returns \<open>None\<close>. Of the value a predicate returns the validator
  uses the truth value only, which is what the model keeps. The \<^verbatim>\<open>generators\<close>
  dictionary of a module is never read by the registry, the collector or the validator and
  is left out.
\<close>

datatype RuleType = HARD | SOFT

type_synonym rid = nat
type_synonym mid = nat

record 'a Rule =
  name :: string
  kind :: RuleType
  logic :: "'a list \<Rightarrow> bool option"
  source_module :: string
  active :: bool

record Module =
  mod_name :: string
  rules :: "rid list"
  mod_imports :: "mid list"

record 'a heap =
  rule_objs :: "'a Rule list"
  mod_objs :: "Module list"

record PhiSystem =
  modules :: "string \<rightharpoonup> mid"
  current_module :: "mid option"

text \<open>
  The lines that the modelled functions print, as values. The message of a caught exception
  is not kept.
\<close>

datatype 'r event =
    CodeAnalysis
  | CreatingModule string
  | ImportAdded string string
  | ImportError string
  | RuleAdded string
  | ModuleNotFound string
  | ValidationIn string
  | FunctionLine string
  | ResultLine 'r
  | ExecutionError
  | Audit nat
  | Conflict string string
  | Stop
  | AIFix
  | StatusAccept

text \<open>
  Dereferencing. A Python reference always denotes an object, so \<open>None\<close> here is a state
  the program cannot be in; the functions below leave the state alone in that case.
\<close>

definition rule_at :: "'a heap \<Rightarrow> rid \<Rightarrow> 'a Rule option" where
  "rule_at h r = (if r < length (rule_objs h) then Some (rule_objs h ! r) else None)"

definition mod_at :: "'a heap \<Rightarrow> mid \<Rightarrow> Module option" where
  "mod_at h m = (if m < length (mod_objs h) then Some (mod_objs h ! m) else None)"

definition heap_ok :: "'a heap \<Rightarrow> bool" where
  "heap_ok h =
     list_all (\<lambda>md. list_all (\<lambda>r. r < length (rule_objs h)) (rules md) \<and>
                     list_all (\<lambda>m. m < length (mod_objs h)) (mod_imports md)) (mod_objs h)"

subsection \<open>Rule and Module\<close>

text \<open>\<^verbatim>\<open>Rule(name, kind, logic, source_module)\<close>: a fresh object, active.\<close>

definition new_Rule ::
  "string \<Rightarrow> RuleType \<Rightarrow> ('a list \<Rightarrow> bool option) \<Rightarrow> string \<Rightarrow> 'a heap \<Rightarrow> rid \<times> 'a heap" where
  "new_Rule n k l src h =
     (length (rule_objs h),
      h\<lparr>rule_objs := rule_objs h @
          [\<lparr>name = n, kind = k, logic = l, source_module = src, active = True\<rparr>]\<rparr>)"

text \<open>\<^verbatim>\<open>Module(name)\<close>: a fresh object without rules or imports.\<close>

definition new_Module :: "string \<Rightarrow> 'a heap \<Rightarrow> mid \<times> 'a heap" where
  "new_Module n h =
     (length (mod_objs h),
      h\<lparr>mod_objs := mod_objs h @ [\<lparr>mod_name = n, rules = [], mod_imports = []\<rparr>]\<rparr>)"

definition add_rule :: "mid \<Rightarrow> rid \<Rightarrow> 'a heap \<Rightarrow> 'a heap" where
  "add_rule m r h =
     (case mod_at h m of
        None \<Rightarrow> h
      | Some md \<Rightarrow> h\<lparr>mod_objs := (mod_objs h)[m := md\<lparr>rules := rules md @ [r]\<rparr>]\<rparr>)"

definition add_import :: "mid \<Rightarrow> mid \<Rightarrow> 'a heap \<Rightarrow> 'a heap" where
  "add_import m imp h =
     (case mod_at h m of
        None \<Rightarrow> h
      | Some md \<Rightarrow> h\<lparr>mod_objs := (mod_objs h)[m := md\<lparr>mod_imports := mod_imports md @ [imp]\<rparr>]\<rparr>)"

text \<open>\<^verbatim>\<open>rule.active = False\<close>\<close>

definition deactivate :: "rid \<Rightarrow> 'a heap \<Rightarrow> 'a heap" where
  "deactivate r h =
     (case rule_at h r of
        None \<Rightarrow> h
      | Some rule \<Rightarrow> h\<lparr>rule_objs := (rule_objs h)[r := rule\<lparr>active := False\<rparr>]\<rparr>)"

subsection \<open>PhiSystem\<close>

definition new_PhiSystem :: PhiSystem where
  "new_PhiSystem = \<lparr>modules = Map.empty, current_module = None\<rparr>"

definition create_module ::
  "string \<Rightarrow> PhiSystem \<Rightarrow> 'a heap \<Rightarrow> mid \<times> PhiSystem \<times> 'a heap \<times> 'r event list" where
  "create_module n sys h =
     (case modules sys n of
        Some m \<Rightarrow> (m, sys\<lparr>current_module := Some m\<rparr>, h, [])
      | None \<Rightarrow>
          (let (m, h') = new_Module n h
           in (m, sys\<lparr>modules := (modules sys)(n \<mapsto> m), current_module := Some m\<rparr>, h',
               [CreatingModule n])))"

definition get_module :: "PhiSystem \<Rightarrow> string \<Rightarrow> mid option" where
  "get_module sys n = modules sys n"

subsection \<open>Validator\<close>

text \<open>
  \<^verbatim>\<open>_collect_rules(module, collected_rules, visited)\<close> mutates its two accumulators; the
  model threads them as a pair. \<open>collect_imports\<close> is the loop over \<^verbatim>\<open>module.imports\<close>.
  The visited set holds module names, as in the source.
\<close>

function collect_rules ::
    "'a heap \<Rightarrow> mid \<Rightarrow> rid list \<times> string set \<Rightarrow> rid list \<times> string set"
  and collect_imports ::
    "'a heap \<Rightarrow> mid list \<Rightarrow> rid list \<times> string set \<Rightarrow> rid list \<times> string set"
where
  "collect_rules h m (collected_rules, visited) =
     (case mod_at h m of
        None \<Rightarrow> (collected_rules, visited)
      | Some md \<Rightarrow>
          if mod_name md \<in> visited then (collected_rules, visited)
          else collect_imports h (mod_imports md)
                 (collected_rules @ rules md, insert (mod_name md) visited))"
| "collect_imports h [] st = st"
| "collect_imports h (imp_mod # rest) st = collect_imports h rest (collect_rules h imp_mod st)"
  by pat_completeness auto

lemma visited_grows_dom:
  "collect_rules_collect_imports_dom (Inl (h, m, st)) \<Longrightarrow> snd st \<subseteq> snd (collect_rules h m st)"
  "collect_rules_collect_imports_dom (Inr (h, ms, st)) \<Longrightarrow> snd st \<subseteq> snd (collect_imports h ms st)"
proof (induction h m st and h ms st rule: collect_rules_collect_imports.pinduct)
  case (1 h m collected_rules visited)
  then show ?case
    by (auto simp: collect_rules.psimps split: option.splits if_splits)
next
  case (2 h st)
  then show ?case by (simp add: collect_imports.psimps)
next
  case (3 h imp_mod rest st)
  then show ?case by (auto simp: collect_imports.psimps)
qed

definition heap_names :: "'a heap \<Rightarrow> string set" where
  "heap_names h = mod_name ` set (mod_objs h)"

lemma finite_heap_names: "finite (heap_names h)"
  by (simp add: heap_names_def)

lemma mod_at_name: "mod_at h m = Some md \<Longrightarrow> mod_name md \<in> heap_names h"
  by (auto simp: mod_at_def heap_names_def split: if_splits)

text \<open>
  Each call that enters a module adds a new name to the visited set, of which the store
  has finitely many; between two such calls only the list of pending imports shrinks.
\<close>

termination collect_rules
proof (relation "measures [
    (\<lambda>x. case x of Inl (h, m, st) \<Rightarrow> card (heap_names h - snd st)
                 | Inr (h, ms, st) \<Rightarrow> card (heap_names h - snd st)),
    (\<lambda>x. case x of Inl (h, m, st) \<Rightarrow> 0 | Inr (h, ms, st) \<Rightarrow> Suc (length ms))]", goal_cases)
  case 1
  then show ?case by simp
next
  case (2 h m collected_rules visited md)
  then have "mod_name md \<in> heap_names h" by (simp add: mod_at_name)
  with 2 have "card (heap_names h - insert (mod_name md) visited) < card (heap_names h - visited)"
    by (intro psubset_card_mono) (auto simp: finite_heap_names)
  then show ?case by simp
next
  case (3 h imp_mod rest st)
  then show ?case by simp
next
  case (4 h imp_mod rest st)
  then have "snd st \<subseteq> snd (collect_rules h imp_mod st)" by (rule visited_grows_dom(1))
  then have "card (heap_names h - snd (collect_rules h imp_mod st)) \<le> card (heap_names h - snd st)"
    by (intro card_mono) (auto simp: finite_heap_names)
  then show ?case by auto
qed

text \<open>Lines 97-98: \<^verbatim>\<open>all_rules = []; self._collect_rules(target_module, all_rules, set())\<close>\<close>

definition all_rules_of :: "'a heap \<Rightarrow> mid \<Rightarrow> rid list" where
  "all_rules_of h m = fst (collect_rules h m ([], {}))"

text \<open>
  The verification loop (lines 103-123) up to its first \<^verbatim>\<open>return\<close>. The loop itself
  changes nothing before it returns, so it is a scan whose result says how it left:
  by running out of rules, by the \<^verbatim>\<open>HARD\<close> branch, or by the \<^verbatim>\<open>SOFT\<close> branch.
\<close>

datatype loop_exit = LoopDone | HardStop rid | SoftFix rid

fun check_rules :: "'a heap \<Rightarrow> 'a list \<Rightarrow> rid list \<Rightarrow> loop_exit" where
  "check_rules h args [] = LoopDone"
| "check_rules h args (r # rs) =
     (case rule_at h r of
        None \<Rightarrow> check_rules h args rs
      | Some rule \<Rightarrow>
          if \<not> active rule then check_rules h args rs
          else (case logic rule args of
                  None \<Rightarrow> check_rules h args rs
                | Some is_ok \<Rightarrow>
                    if is_ok then check_rules h args rs
                    else (case kind rule of HARD \<Rightarrow> HardStop r | SOFT \<Rightarrow> SoftFix r)))"

definition conflict_line :: "'a heap \<Rightarrow> rid \<Rightarrow> 'r event" where
  "conflict_line h r =
     (case rule_at h r of
        None \<Rightarrow> Conflict [] []
      | Some rule \<Rightarrow> Conflict (name rule) (source_module rule))"

definition count_active :: "'a heap \<Rightarrow> nat" where
  "count_active h = length (filter active (rule_objs h))"

lemma check_rules_SoftFix:
  "check_rules h args rs = SoftFix r \<Longrightarrow>
     r \<in> set rs \<and> (\<exists>rule. rule_at h r = Some rule \<and> active rule \<and> kind rule = SOFT
                          \<and> logic rule args = Some False)"
  by (induction rs) (auto split: option.splits if_splits RuleType.splits)

lemma check_rules_HardStop:
  "check_rules h args rs = HardStop r \<Longrightarrow>
     r \<in> set rs \<and> (\<exists>rule. rule_at h r = Some rule \<and> active rule \<and> kind rule = HARD
                          \<and> logic rule args = Some False)"
  by (induction rs) (auto split: option.splits if_splits RuleType.splits)

lemma filter_active_update:
  assumes "r < length xs" and "active (xs ! r)"
  shows "length (filter active (xs[r := (xs ! r)\<lparr>active := False\<rparr>])) < length (filter active xs)"
  using assms
proof (induction xs arbitrary: r)
  case Nil
  then show ?case by simp
next
  case (Cons x xs)
  then show ?case by (cases r) auto
qed

lemma count_active_deactivate:
  "rule_at h r = Some rule \<Longrightarrow> active rule \<Longrightarrow> count_active (deactivate r h) < count_active h"
  using filter_active_update [of r "rule_objs h"]
  by (auto simp: count_active_def deactivate_def rule_at_def split: if_splits)

text \<open>
  \<^verbatim>\<open>validate\<close> returns the Python result, the lines printed, and the store it leaves.
\<close>

function validate ::
  "string \<Rightarrow> string \<Rightarrow> ('a list \<Rightarrow> 'r option) \<Rightarrow> 'a list \<Rightarrow> PhiSystem \<Rightarrow> 'a heap
     \<Rightarrow> bool \<times> 'r event list \<times> 'a heap"
where
  "validate module_name func_name func args sys h =
     (case get_module sys module_name of
        None \<Rightarrow> (False, [ModuleNotFound module_name], h)
      | Some target_module \<Rightarrow>
          (case func args of
             None \<Rightarrow> (False, [ValidationIn module_name, FunctionLine func_name, ExecutionError], h)
           | Some result \<Rightarrow>
               (let all_rules = all_rules_of h target_module;
                    head = [ValidationIn module_name, FunctionLine func_name, ResultLine result,
                            Audit (length all_rules)]
                in case check_rules h args all_rules of
                     LoopDone \<Rightarrow> (True, head @ [StatusAccept], h)
                   | HardStop r \<Rightarrow> (False, head @ [conflict_line h r, Stop], h)
                   | SoftFix r \<Rightarrow>
                       (case validate module_name func_name func args sys (deactivate r h) of
                          (res, out, h') \<Rightarrow> (res, head @ [conflict_line h r, AIFix] @ out, h')))))"
  by pat_completeness auto
termination
  by (relation "measure (\<lambda>(module_name, func_name, func, args, sys, h). count_active h)")
     (auto dest!: check_rules_SoftFix intro: count_active_deactivate)

declare collect_rules.simps [simp del]
declare validate.simps [simp del]

subsection \<open>PhiParser\<close>

text \<open>
  The textual layer (\<^verbatim>\<open>strip\<close>, \<^verbatim>\<open>startswith\<close>, the regular expressions) is not modelled:
  a line is given by what the parser extracts from it. \<open>ModuleLine n\<close> is a line on which
  \<^verbatim>\<open>module\s+(\w+)\<close> matches with group \<open>n\<close>, \<open>ImportLine n\<close> likewise for
  \<^verbatim>\<open>import\s+(\w+)\<close>, \<open>AxiomLine n k\<close> a well-formed \<^verbatim>\<open>axiom n : ...\<close> line whose body
  gives kind \<open>k\<close>, and \<open>OtherLine\<close> any line that changes nothing (blank, comment,
  \<^verbatim>\<open>data\<close>, brace). \<^verbatim>\<open>_resolve_logic\<close> maps a rule name to a predicate over operands and is a
  parameter.
\<close>

datatype src_line = ModuleLine string | ImportLine string | AxiomLine string RuleType | OtherLine

definition name_of :: "'a heap \<Rightarrow> mid \<Rightarrow> string" where
  "name_of h m = (case mod_at h m of None \<Rightarrow> [] | Some md \<Rightarrow> mod_name md)"

text \<open>Lines 148-158, the \<^verbatim>\<open>import\<close> branch of \<^verbatim>\<open>parse\<close>.\<close>

definition parse_import :: "string \<Rightarrow> PhiSystem \<Rightarrow> 'a heap \<Rightarrow> 'a heap \<times> 'r event list" where
  "parse_import imp_name sys h =
     (case current_module sys of
        None \<Rightarrow> (h, [])
      | Some cur \<Rightarrow>
          (case get_module sys imp_name of
             Some imp_mod \<Rightarrow> (add_import cur imp_mod h, [ImportAdded imp_name (name_of h cur)])
           | None \<Rightarrow> (h, [ImportError imp_name])))"

text \<open>Lines 168-179, the \<^verbatim>\<open>axiom\<close> branch of \<^verbatim>\<open>_parse_instruction\<close>.\<close>

definition parse_axiom ::
  "(string \<Rightarrow> 'a list \<Rightarrow> bool option) \<Rightarrow> string \<Rightarrow> RuleType \<Rightarrow> PhiSystem \<Rightarrow> 'a heap
     \<Rightarrow> 'a heap \<times> 'r event list" where
  "parse_axiom resolve_logic n k sys h =
     (case current_module sys of
        None \<Rightarrow> (h, [])
      | Some cur \<Rightarrow>
          (let (rule, h1) = new_Rule n k (resolve_logic n) (name_of h cur) h
           in (add_rule cur rule h1, [RuleAdded n])))"

fun parse_line ::
  "(string \<Rightarrow> 'a list \<Rightarrow> bool option) \<Rightarrow> src_line \<Rightarrow> PhiSystem \<times> 'a heap \<times> 'r event list
     \<Rightarrow> PhiSystem \<times> 'a heap \<times> 'r event list" where
  "parse_line resolve_logic (ModuleLine n) (sys, h, out) =
     (case create_module n sys h of (m, sys', h', ev) \<Rightarrow> (sys', h', out @ ev))"
| "parse_line resolve_logic (ImportLine n) (sys, h, out) =
     (case parse_import n sys h of (h', ev) \<Rightarrow> (sys, h', out @ ev))"
| "parse_line resolve_logic (AxiomLine n k) (sys, h, out) =
     (case parse_axiom resolve_logic n k sys h of (h', ev) \<Rightarrow> (sys, h', out @ ev))"
| "parse_line resolve_logic OtherLine st = st"

definition parse ::
  "(string \<Rightarrow> 'a list \<Rightarrow> bool option) \<Rightarrow> src_line list \<Rightarrow> PhiSystem \<Rightarrow> 'a heap
     \<Rightarrow> PhiSystem \<times> 'a heap \<times> 'r event list" where
  "parse resolve_logic lines sys h = fold (parse_line resolve_logic) lines (sys, h, [CodeAnalysis])"


section \<open>The earlier variants\<close>

subsection \<open>\<^verbatim>\<open>Rule\<close> of \<^verbatim>\<open>phi_kernel_poc.py\<close>\<close>

record 'a Rule_poc =
  name_poc :: string
  predicate :: "'a list \<Rightarrow> bool option"
  kind_poc :: RuleType
  active_poc :: bool

definition check :: "'a Rule_poc \<Rightarrow> 'a list \<Rightarrow> bool option" where
  "check self args = (if \<not> active_poc self then Some True else predicate self args)"

subsection \<open>\<^verbatim>\<open>PhiSystem.create_module\<close> of \<^verbatim>\<open>phi_modular_system.py\<close>\<close>

text \<open>
  The module of this variant has no imports; its \<^verbatim>\<open>generators\<close> and \<^verbatim>\<open>transformations\<close>
  are not read by \<^verbatim>\<open>create_module\<close>. The store is the list of module objects.
\<close>

record Module_modular =
  mod_name_modular :: string
  rules_modular :: "rid list"

definition create_module_modular ::
  "string \<Rightarrow> PhiSystem \<Rightarrow> Module_modular list
     \<Rightarrow> mid \<times> PhiSystem \<times> Module_modular list \<times> 'r event list" where
  "create_module_modular n sys ms =
     (let m = length ms;
          ms' = ms @ [\<lparr>mod_name_modular = n, rules_modular = []\<rparr>]
      in (m, sys\<lparr>modules := (modules sys)(n \<mapsto> m), current_module := Some m\<rparr>, ms',
          [CreatingModule n]))"

definition add_rule_modular :: "mid \<Rightarrow> rid \<Rightarrow> Module_modular list \<Rightarrow> Module_modular list" where
  "add_rule_modular m r ms =
     (if m < length ms then ms[m := (ms ! m)\<lparr>rules_modular := rules_modular (ms ! m) @ [r]\<rparr>]
      else ms)"

section \<open>Notions used to state the properties\<close>

definition is_active :: "'a heap \<Rightarrow> rid \<Rightarrow> bool" where
  "is_active h r = (case rule_at h r of None \<Rightarrow> False | Some rule \<Rightarrow> active rule)"

definition is_active_soft :: "'a heap \<Rightarrow> rid \<Rightarrow> bool" where
  "is_active_soft h r =
     (case rule_at h r of None \<Rightarrow> False | Some rule \<Rightarrow> active rule \<and> kind rule = SOFT)"

text \<open>A rule the loop would stop at: active, and its predicate returns \<^verbatim>\<open>False\<close>.\<close>

definition violated :: "'a heap \<Rightarrow> 'a list \<Rightarrow> rid \<Rightarrow> bool" where
  "violated h args r =
     (case rule_at h r of None \<Rightarrow> False | Some rule \<Rightarrow> active rule \<and> logic rule args = Some False)"

text \<open>The number of active soft rule objects that the collector reaches from a module name.\<close>

definition soft_reachable :: "PhiSystem \<Rightarrow> 'a heap \<Rightarrow> string \<Rightarrow> nat" where
  "soft_reachable sys h module_name =
     (case get_module sys module_name of
        None \<Rightarrow> 0
      | Some tm \<Rightarrow> length (remdups (filter (is_active_soft h) (all_rules_of h tm))))"

text \<open>
  A pass is one run of the body of \<^verbatim>\<open>validate\<close> past the module lookup; it prints the
  \<^verbatim>\<open>Validation in\<close> line. A restart is a recursive call; it is printed as \<^verbatim>\<open>[AI-FIX]\<close>.
\<close>

fun is_pass :: "'r event \<Rightarrow> bool" where
  "is_pass (ValidationIn n) = True"
| "is_pass e = False"

fun is_restart :: "'r event \<Rightarrow> bool" where
  "is_restart AIFix = True"
| "is_restart e = False"

definition passes :: "'r event list \<Rightarrow> nat" where
  "passes out = length (filter is_pass out)"

definition restarts :: "'r event list \<Rightarrow> nat" where
  "restarts out = length (filter is_restart out)"

text \<open>A sequence of \<^verbatim>\<open>validate\<close> calls on one store, each seeing what the last one left.\<close>

type_synonym ('a, 'r) call = "string \<times> string \<times> ('a list \<Rightarrow> 'r option) \<times> 'a list \<times> PhiSystem"

fun validate_all :: "('a, 'r) call list \<Rightarrow> 'a heap \<Rightarrow> 'a heap" where
  "validate_all [] h = h"
| "validate_all ((module_name, func_name, func, args, sys) # calls) h =
     validate_all calls (snd (snd (validate module_name func_name func args sys h)))"

text \<open>
  Store \<open>h'\<close> comes from \<open>h\<close> by switching rules off and by nothing else: the modules are
  the same, and every rule object is as it was or differs in \<open>active\<close> being false.
\<close>

definition only_deactivated :: "'a heap \<Rightarrow> 'a heap \<Rightarrow> bool" where
  "only_deactivated h h' =
     (mod_objs h' = mod_objs h \<and>
      list_all2 (\<lambda>old new. new = old \<or> new = old\<lparr>active := False\<rparr>) (rule_objs h) (rule_objs h'))"

definition active_rules_of :: "'a heap \<Rightarrow> mid \<Rightarrow> rid list" where
  "active_rules_of h m = filter (is_active h) (all_rules_of h m)"

text \<open>The import graph on module objects, and the rules a module object declares.\<close>

definition import_edges :: "'a heap \<Rightarrow> (mid \<times> mid) set" where
  "import_edges h = {(x, y). \<exists>md. mod_at h x = Some md \<and> y \<in> set (mod_imports md)}"

definition rules_at :: "'a heap \<Rightarrow> mid \<Rightarrow> rid list" where
  "rules_at h m = (case mod_at h m of None \<Rightarrow> [] | Some md \<Rightarrow> rules md)"

text \<open>
  \<^verbatim>\<open>create_module\<close> makes one module object per name, and the visited set of the collector
  identifies a module by its name.
\<close>

definition names_unique :: "'a heap \<Rightarrow> bool" where
  "names_unique h = distinct (map mod_name (mod_objs h))"

text \<open>
  For the collector: the visited set after entering the modules \<open>ms\<close>, and what holds of
  the modules a traversal enters. Their names are new and pairwise different, and every
  import of an entered module is visited by the end.
\<close>

definition visited_after :: "'a heap \<Rightarrow> string set \<Rightarrow> mid list \<Rightarrow> string set" where
  "visited_after h vis ms = vis \<union> name_of h ` set ms"

definition entered_ok :: "'a heap \<Rightarrow> string set \<Rightarrow> mid list \<Rightarrow> bool" where
  "entered_ok h vis ms =
     (distinct (map (name_of h) ms) \<and>
      (\<forall>x\<in>set ms. x < length (mod_objs h) \<and> name_of h x \<notin> vis) \<and>
      (\<forall>x\<in>set ms. \<forall>y. (x, y) \<in> import_edges h \<longrightarrow> y < length (mod_objs h) \<longrightarrow>
           name_of h y \<in> visited_after h vis ms))"

text \<open>
  What \<^verbatim>\<open>PhiSystem\<close> and the parser maintain: the registry maps a name to a module object
  of that name, every module object is registered under its name, and the current module
  is an object of the store.
\<close>

definition registry_ok :: "PhiSystem \<Rightarrow> 'a heap \<Rightarrow> bool" where
  "registry_ok sys h =
     ((\<forall>n m. modules sys n = Some m \<longrightarrow> m < length (mod_objs h) \<and> name_of h m = n) \<and>
      (\<forall>m < length (mod_objs h). modules sys (name_of h m) = Some m) \<and>
      (\<forall>cur. current_module sys = Some cur \<longrightarrow> cur < length (mod_objs h)))"

section \<open>A store to run the functions on\<close>

text \<open>
  \<open>CoreMath\<close> and \<open>Finance\<close> are the modules of the script's own scenario; \<open>Audit\<close>
  and the back import of \<open>CoreMath\<close> add a diamond and a cycle. \<open>positive\<close> takes one
  operand, so on two it raises \<^verbatim>\<open>TypeError\<close>.
\<close>

definition demo_rules :: "int Rule list" where
  "demo_rules =
     [\<lparr>name = ''nonzero'', kind = HARD,
       logic = (\<lambda>args. case args of [a, b] \<Rightarrow> Some (b \<noteq> 0) | _ \<Rightarrow> None),
       source_module = ''CoreMath'', active = True\<rparr>,
      \<lparr>name = ''positive'', kind = SOFT,
       logic = (\<lambda>args. case args of [a] \<Rightarrow> Some (a > 0) | _ \<Rightarrow> None),
       source_module = ''Finance'', active = True\<rparr>,
      \<lparr>name = ''small'', kind = SOFT,
       logic = (\<lambda>args. case args of [a, b] \<Rightarrow> Some (a < 10) | _ \<Rightarrow> None),
       source_module = ''Finance'', active = True\<rparr>,
      \<lparr>name = ''ordered'', kind = SOFT,
       logic = (\<lambda>args. case args of [a, b] \<Rightarrow> Some (a < b) | _ \<Rightarrow> None),
       source_module = ''Audit'', active = True\<rparr>]"

definition demo_heap :: "int heap" where
  "demo_heap =
     \<lparr>rule_objs = demo_rules,
      mod_objs =
        [\<lparr>mod_name = ''CoreMath'', rules = [0], mod_imports = [1]\<rparr>,
         \<lparr>mod_name = ''Finance'', rules = [1, 2], mod_imports = [0, 2]\<rparr>,
         \<lparr>mod_name = ''Audit'', rules = [3], mod_imports = [0]\<rparr>]\<rparr>"

definition demo_sys :: PhiSystem where
  "demo_sys =
     \<lparr>modules = [''CoreMath'' \<mapsto> 0, ''Finance'' \<mapsto> 1, ''Audit'' \<mapsto> 2],
      current_module = Some 2\<rparr>"

definition multiply :: "int list \<Rightarrow> int option" where
  "multiply args = (case args of [a, b] \<Rightarrow> Some (a * b) | _ \<Rightarrow> None)"

definition demo_calls :: "(int, int) call list" where
  "demo_calls =
     [(''Finance'', ''calc'', multiply, [100, 5], demo_sys),
      (''Audit'', ''calc'', multiply, [3, 0], demo_sys)]"

definition demo_relaxed :: "int heap" where
  "demo_relaxed = deactivate 3 (deactivate 2 demo_heap)"

text \<open>
  A second store, in which the module \<open>A\<close> below the root has two imports, and
  \<open>C\<close> imports back into what is already visited.
\<close>

definition tree_heap :: "int heap" where
  "tree_heap =
     \<lparr>rule_objs = demo_rules,
      mod_objs =
        [\<lparr>mod_name = ''Root'', rules = [0], mod_imports = [1]\<rparr>,
         \<lparr>mod_name = ''A'', rules = [1], mod_imports = [2, 3]\<rparr>,
         \<lparr>mod_name = ''B'', rules = [2], mod_imports = []\<rparr>,
         \<lparr>mod_name = ''C'', rules = [3], mod_imports = [0, 2]\<rparr>]\<rparr>"








text \<open>\<^verbatim>\<open>create_module\<close> of \<^verbatim>\<open>phi_modular_system.py\<close>, called twice with one name.\<close>

definition modular_first :: "mid \<times> PhiSystem \<times> Module_modular list \<times> int event list" where
  "modular_first = create_module_modular ''Arithmetic'' new_PhiSystem []"

definition modular_second :: "mid \<times> PhiSystem \<times> Module_modular list \<times> int event list" where
  "modular_second =
     create_module_modular ''Arithmetic'' (fst (snd modular_first))
       (add_rule_modular (fst modular_first) 0 (fst (snd (snd modular_first))))"

section \<open>Facts about the store, the collector and the loop\<close>

lemma collect_rules_mods_only:
  "mod_objs h' = mod_objs h \<Longrightarrow> collect_rules h' m st = collect_rules h m st"
  "mod_objs h' = mod_objs h \<Longrightarrow> collect_imports h' ms st = collect_imports h ms st"
proof (induction h m st and h ms st rule: collect_rules_collect_imports.induct)
  case (1 h m collected_rules visited)
  then show ?case by (auto simp: collect_rules.simps mod_at_def split: option.splits)
next
  case (2 h st)
  then show ?case by simp
next
  case (3 h imp_mod rest st)
  then show ?case by simp
qed

lemma mod_objs_deactivate [simp]: "mod_objs (deactivate r h) = mod_objs h"
  by (simp add: deactivate_def split: option.splits)

lemma length_rule_objs_deactivate [simp]: "length (rule_objs (deactivate r h)) = length (rule_objs h)"
  by (simp add: deactivate_def split: option.splits)

lemma all_rules_of_deactivate [simp]: "all_rules_of (deactivate r h) m = all_rules_of h m"
  using collect_rules_mods_only(1)[of "deactivate r h" h] by (simp add: all_rules_of_def)

lemma rule_at_deactivate:
  "rule_at (deactivate r h) r' =
     (if r' = r then map_option (\<lambda>rule. rule\<lparr>active := False\<rparr>) (rule_at h r) else rule_at h r')"
  by (auto simp: deactivate_def rule_at_def split: option.splits)


lemma is_active_soft_deactivate:
  "is_active_soft (deactivate r h) r' = (r' \<noteq> r \<and> is_active_soft h r')"
  by (auto simp: is_active_soft_def rule_at_deactivate split: option.splits)

lemma soft_reachable_decreases:
  assumes "get_module sys mn = Some tm" "r \<in> set (all_rules_of h tm)" "is_active_soft h r"
  shows "soft_reachable sys (deactivate r h) mn < soft_reachable sys h mn"
proof -
  let ?rs = "all_rules_of h tm"
  have "set (filter (is_active_soft (deactivate r h)) ?rs) \<subset> set (filter (is_active_soft h) ?rs)"
    using assms by (auto simp: is_active_soft_deactivate)
  then have "card (set (filter (is_active_soft (deactivate r h)) ?rs)) < card (set (filter (is_active_soft h) ?rs))"
    by (intro psubset_card_mono) auto
  then show ?thesis using assms(1)
    by (simp add: soft_reachable_def length_remdups_card_conv)
qed

lemma check_rules_prefix:
  "\<forall>x\<in>set pre. \<not> violated h args x \<Longrightarrow> check_rules h args (pre @ rs) = check_rules h args rs"
  by (induction pre) (auto simp: violated_def split: option.splits)

lemma validate_head:
  assumes "get_module sys mn = Some tm" "func args = Some res"
  shows "\<exists>out'. fst (snd (validate mn fn func args sys h)) =
           [ValidationIn mn, FunctionLine fn, ResultLine res, Audit (length (all_rules_of h tm))] @ out'"
  using assms
  by (subst validate.simps) (simp add: Let_def split: loop_exit.splits prod.splits)

lemma validate_SoftFix:
  assumes "get_module sys mn = Some tm" "func args = Some res"
    "check_rules h args (all_rules_of h tm) = SoftFix r"
  shows "validate mn fn func args sys h =
          (case validate mn fn func args sys (deactivate r h) of
             (verdict, out, h') \<Rightarrow>
               (verdict,
                [ValidationIn mn, FunctionLine fn, ResultLine res, Audit (length (all_rules_of h tm)),
                 conflict_line h r, AIFix] @ out, h'))"
  using assms by (subst validate.simps) (simp add: Let_def)

lemma validate_SoftFix_proj:
  assumes "get_module sys mn = Some tm" "func args = Some res"
    "check_rules h args (all_rules_of h tm) = SoftFix r"
  shows "fst (validate mn fn func args sys h) = fst (validate mn fn func args sys (deactivate r h))"
    and "fst (snd (validate mn fn func args sys h)) =
          [ValidationIn mn, FunctionLine fn, ResultLine res, Audit (length (all_rules_of h tm)),
           conflict_line h r, AIFix] @ fst (snd (validate mn fn func args sys (deactivate r h)))"
    and "snd (snd (validate mn fn func args sys h)) =
          snd (snd (validate mn fn func args sys (deactivate r h)))"
  using assms by (subst validate.simps; simp add: Let_def split: prod.splits)+

lemma only_deactivated_refl: "only_deactivated h h"
  by (simp add: only_deactivated_def list_all2_same)

lemma only_deactivated_trans:
  "only_deactivated h1 h2 \<Longrightarrow> only_deactivated h2 h3 \<Longrightarrow> only_deactivated h1 h3"
  unfolding only_deactivated_def list_all2_conv_all_nth
  by (auto; metis (no_types, lifting) Rule.surjective Rule.update_convs(5))

lemma only_deactivated_deactivate: "only_deactivated h (deactivate r h)"
  by (auto simp: only_deactivated_def deactivate_def rule_at_def list_all2_conv_all_nth nth_list_update
           split: option.splits)

lemma validate_only_deactivated:
  "only_deactivated h (snd (snd (validate mn fn func args sys h)))"
proof (induction mn fn func args sys h rule: validate.induct)
  case (1 mn fn func args sys h)
  show ?case
  proof (cases "get_module sys mn")
    case None
    then show ?thesis by (subst validate.simps) (simp add: only_deactivated_refl)
  next
    case (Some tm)
    note tm = this
    show ?thesis
    proof (cases "func args")
      case None
      with tm show ?thesis by (subst validate.simps) (simp add: only_deactivated_refl)
    next
      case (Some res)
      note res = this
      show ?thesis
      proof (cases "check_rules h args (all_rules_of h tm)")
        case LoopDone
        with tm res show ?thesis
          by (subst validate.simps) (simp add: Let_def only_deactivated_refl)
      next
        case (HardStop r)
        with tm res show ?thesis
          by (subst validate.simps) (simp add: Let_def only_deactivated_refl)
      next
        case (SoftFix r)
        have "only_deactivated (deactivate r h) (snd (snd (validate mn fn func args sys (deactivate r h))))"
          using tm res SoftFix by (intro "1.IH") auto
        then have "only_deactivated h (snd (snd (validate mn fn func args sys (deactivate r h))))"
          using only_deactivated_deactivate only_deactivated_trans by blast
        then show ?thesis
          using tm res SoftFix by (simp add: validate_SoftFix_proj(3))
      qed
    qed
  qed
qed

lemma validate_all_only_deactivated: "only_deactivated h (validate_all calls h)"
proof (induction calls arbitrary: h)
  case Nil
  then show ?case by (simp add: only_deactivated_refl)
next
  case (Cons c calls)
  obtain mn fn func args sys where c: "c = (mn, fn, func, args, sys)" by (cases c)
  show ?case unfolding c validate_all.simps
    using validate_only_deactivated Cons.IH only_deactivated_trans by blast
qed

lemma only_deactivated_all_rules:
  "only_deactivated h h' \<Longrightarrow> all_rules_of h' m = all_rules_of h m"
  using collect_rules_mods_only(1)[of h' h] by (simp add: only_deactivated_def all_rules_of_def)

lemma only_deactivated_is_active:
  "only_deactivated h h' \<Longrightarrow> is_active h' r \<Longrightarrow> is_active h r"
  by (auto simp: only_deactivated_def is_active_def rule_at_def list_all2_conv_all_nth
           split: option.splits if_splits)

lemma only_deactivated_active_rules:
  "only_deactivated h h' \<Longrightarrow> set (active_rules_of h' m) \<subseteq> set (active_rules_of h m)"
  by (auto simp: active_rules_of_def only_deactivated_all_rules dest: only_deactivated_is_active)

lemma validate_no_restart_same_heap:
  "AIFix \<notin> set (fst (snd (validate mn fn func args sys h))) \<Longrightarrow>
     snd (snd (validate mn fn func args sys h)) = h"
  by (subst validate.simps, subst (asm) validate.simps)
     (auto simp: Let_def split: option.splits loop_exit.splits prod.splits)

lemma demo_all_rules: "all_rules_of demo_heap 1 = [1, 2, 0, 3]"
  by (simp add: all_rules_of_def demo_heap_def collect_rules.simps mod_at_def)

lemma validate_no_module:
  "get_module sys mn = None \<Longrightarrow>
     validate mn fn func args sys h = (False, [ModuleNotFound mn], h)"
  by (subst validate.simps) simp

lemma validate_execution_error:
  "get_module sys mn = Some tm \<Longrightarrow> func args = None \<Longrightarrow>
     validate mn fn func args sys h =
       (False, [ValidationIn mn, FunctionLine fn, ExecutionError], h)"
  by (subst validate.simps) simp

lemma validate_LoopDone:
  "get_module sys mn = Some tm \<Longrightarrow> func args = Some res \<Longrightarrow>
   check_rules h args (all_rules_of h tm) = LoopDone \<Longrightarrow>
     validate mn fn func args sys h =
       (True, [ValidationIn mn, FunctionLine fn, ResultLine res,
               Audit (length (all_rules_of h tm)), StatusAccept], h)"
  by (subst validate.simps) (simp add: Let_def)

lemma validate_HardStop:
  "get_module sys mn = Some tm \<Longrightarrow> func args = Some res \<Longrightarrow>
   check_rules h args (all_rules_of h tm) = HardStop r \<Longrightarrow>
     validate mn fn func args sys h =
       (False, [ValidationIn mn, FunctionLine fn, ResultLine res,
                Audit (length (all_rules_of h tm)), conflict_line h r, Stop], h)"
  by (subst validate.simps) (simp add: Let_def)

lemma demo_run_accept:
  "validate ''Finance'' ''calc'' multiply [100, 5] demo_sys demo_heap =
     (True,
      [ValidationIn ''Finance'', FunctionLine ''calc'', ResultLine 500, Audit 4,
       Conflict ''small'' ''Finance'', AIFix,
       ValidationIn ''Finance'', FunctionLine ''calc'', ResultLine 500, Audit 4,
       Conflict ''ordered'' ''Audit'', AIFix,
       ValidationIn ''Finance'', FunctionLine ''calc'', ResultLine 500, Audit 4, StatusAccept],
      deactivate 3 (deactivate 2 demo_heap))"
  by (simp add: validate.simps all_rules_of_def collect_rules.simps mod_at_def rule_at_def
      get_module_def demo_sys_def demo_heap_def demo_rules_def multiply_def deactivate_def
      conflict_line_def)

lemma demo_soft_reachable: "soft_reachable demo_sys demo_heap ''Finance'' = 3"
  by code_simp

lemma check_rules_skip_raising:
  "rule_at h r = Some rule \<Longrightarrow> logic rule args = None \<Longrightarrow>
     check_rules h args (r # rs) = check_rules h args rs"
  by simp

lemma check_rules_never_raising:
  "rule_at h r = Some rule \<Longrightarrow> logic rule args = None \<Longrightarrow>
     check_rules h args rs \<noteq> HardStop r \<and> check_rules h args rs \<noteq> SoftFix r"
  using check_rules_HardStop [of h args rs r] check_rules_SoftFix [of h args rs r] by auto

lemma check_rules_deactivate_raising:
  "rule_at h r = Some rule \<Longrightarrow> logic rule args = None \<Longrightarrow>
     check_rules (deactivate r h) args rs = check_rules h args rs"
  by (induction rs) (auto simp: rule_at_deactivate split: option.splits RuleType.splits)

lemma deactivate_commute: "deactivate r (deactivate r' h) = deactivate r' (deactivate r h)"
  by (cases "r = r'")
     (auto simp: deactivate_def rule_at_def list_update_swap split: option.splits)

lemma conflict_line_deactivate: "conflict_line (deactivate r h) r' = conflict_line h r'"
  by (auto simp: conflict_line_def rule_at_deactivate split: option.splits)

lemma validate_raising_rule:
  assumes "rule_at h r = Some rule" "logic rule args = None"
  shows "fst (validate mn fn func args sys (deactivate r h)) = fst (validate mn fn func args sys h) \<and>
         fst (snd (validate mn fn func args sys (deactivate r h))) = fst (snd (validate mn fn func args sys h)) \<and>
         snd (snd (validate mn fn func args sys (deactivate r h))) = deactivate r (snd (snd (validate mn fn func args sys h))) \<and>
         rule_at (snd (snd (validate mn fn func args sys h))) r = Some rule"
  using assms
proof (induction mn fn func args sys h rule: validate.induct)
  case (1 mn fn func args sys h)
  show ?case
  proof (cases "get_module sys mn")
    case None
    with 1 show ?thesis by (simp add: validate_no_module)
  next
    case (Some tm)
    note tm = this
    show ?thesis
    proof (cases "func args")
      case None
      with tm 1 show ?thesis by (simp add: validate_execution_error)
    next
      case (Some res)
      note res = this
      have same: "check_rules (deactivate r h) args (all_rules_of (deactivate r h) tm) =
                  check_rules h args (all_rules_of h tm)"
        using "1.prems" by (simp add: check_rules_deactivate_raising)
      show ?thesis
      proof (cases "check_rules h args (all_rules_of h tm)")
        case LoopDone
        with same have "check_rules (deactivate r h) args (all_rules_of (deactivate r h) tm) = LoopDone"
          by simp
        from validate_LoopDone [where func = func and args = args, OF tm res this] validate_LoopDone [where func = func and args = args, OF tm res LoopDone] "1.prems"
        show ?thesis by simp
      next
        case (HardStop r')
        with same have "check_rules (deactivate r h) args (all_rules_of (deactivate r h) tm) = HardStop r'"
          by simp
        from validate_HardStop [where func = func and args = args, OF tm res this] validate_HardStop [where func = func and args = args, OF tm res HardStop] "1.prems"
        show ?thesis by (simp add: conflict_line_deactivate)
      next
        case (SoftFix r')
        with same have sf': "check_rules (deactivate r h) args (all_rules_of (deactivate r h) tm) = SoftFix r'"
          by simp
        have ne: "r' \<noteq> r"
          using SoftFix check_rules_never_raising [OF "1.prems", of "all_rules_of h tm"] by auto
        then have at: "rule_at (deactivate r' h) r = Some rule"
          using "1.prems"(1) by (simp add: rule_at_deactivate)
        have IH: "fst (validate mn fn func args sys (deactivate r (deactivate r' h))) = fst (validate mn fn func args sys (deactivate r' h)) \<and>
         fst (snd (validate mn fn func args sys (deactivate r (deactivate r' h)))) = fst (snd (validate mn fn func args sys (deactivate r' h))) \<and>
         snd (snd (validate mn fn func args sys (deactivate r (deactivate r' h)))) = deactivate r (snd (snd (validate mn fn func args sys (deactivate r' h)))) \<and>
         rule_at (snd (snd (validate mn fn func args sys (deactivate r' h)))) r = Some rule"
          using tm res SoftFix at "1.prems"(2) by (intro "1.IH") auto
        have sw: "deactivate r' (deactivate r h) = deactivate r (deactivate r' h)"
          by (rule deactivate_commute)
        show ?thesis
          using IH
          by (simp add: validate_SoftFix_proj [where func = func and args = args, OF tm res SoftFix]
                        validate_SoftFix_proj [where func = func and args = args, OF tm res sf'] sw conflict_line_deactivate)
      qed
    qed
  qed
qed

lemma name_of_valid: "mod_at h m = Some md \<Longrightarrow> name_of h m = mod_name md"
  by (simp add: name_of_def)

lemma rules_at_valid: "mod_at h m = Some md \<Longrightarrow> rules_at h m = rules md"
  by (simp add: rules_at_def)

lemma mod_at_Some_iff: "(\<exists>md. mod_at h m = Some md) = (m < length (mod_objs h))"
  by (simp add: mod_at_def)

lemma import_edges_iff:
  "mod_at h m = Some md \<Longrightarrow> ((m, y) \<in> import_edges h) = (y \<in> set (mod_imports md))"
  by (simp add: import_edges_def)

lemma entered_ok_Nil: "entered_ok h vis []"
  by (simp add: entered_ok_def)

lemma entered_ok_append:
  assumes "entered_ok h vis ms1" "entered_ok h (visited_after h vis ms1) ms2"
  shows "entered_ok h vis (ms1 @ ms2)"
proof -
  have va: "visited_after h (visited_after h vis ms1) ms2 = visited_after h vis (ms1 @ ms2)"
    by (auto simp: visited_after_def)
  have sub: "visited_after h vis ms1 \<subseteq> visited_after h vis (ms1 @ ms2)"
    by (auto simp: visited_after_def)
  have fresh: "\<forall>x\<in>set ms2. name_of h x \<notin> vis \<and> name_of h x \<notin> name_of h ` set ms1"
    using assms(2) by (auto simp: entered_ok_def visited_after_def)
  then have "name_of h ` set ms1 \<inter> name_of h ` set ms2 = {}"
    by (metis (no_types, lifting) disjoint_iff imageE)
  then have 1: "distinct (map (name_of h) (ms1 @ ms2))"
    using assms by (simp add: entered_ok_def)
  have 2: "\<forall>x\<in>set (ms1 @ ms2). x < length (mod_objs h) \<and> name_of h x \<notin> vis"
    using assms(1) assms(2) fresh by (auto simp: entered_ok_def)
  have 3: "\<forall>x\<in>set (ms1 @ ms2). \<forall>y. (x, y) \<in> import_edges h \<longrightarrow> y < length (mod_objs h) \<longrightarrow>
           name_of h y \<in> visited_after h vis (ms1 @ ms2)"
  proof (intro ballI allI impI)
    fix x y
    assume x: "x \<in> set (ms1 @ ms2)" and e: "(x, y) \<in> import_edges h"
      and y: "y < length (mod_objs h)"
    from x consider "x \<in> set ms1" | "x \<in> set ms2" by auto
    then show "name_of h y \<in> visited_after h vis (ms1 @ ms2)"
    proof cases
      case 1
      with assms(1) e y have "name_of h y \<in> visited_after h vis ms1"
        by (simp add: entered_ok_def)
      with sub show ?thesis by blast
    next
      case 2
      with assms(2) e y have "name_of h y \<in> visited_after h (visited_after h vis ms1) ms2"
        by (simp add: entered_ok_def)
      then show ?thesis by (simp only: va)
    qed
  qed
  from 1 2 3 show ?thesis unfolding entered_ok_def by blast
qed

lemma entered_ok_Cons:
  assumes "mod_at h m = Some md" "mod_name md \<notin> vis"
    "entered_ok h (insert (mod_name md) vis) ms"
    "\<forall>i\<in>set (mod_imports md). i < length (mod_objs h) \<longrightarrow>
        name_of h i \<in> visited_after h (insert (mod_name md) vis) ms"
  shows "entered_ok h vis (m # ms)"
proof -
  have n: "name_of h m = mod_name md" using assms(1) by (rule name_of_valid)
  have v: "m < length (mod_objs h)" using assms(1) mod_at_Some_iff by blast
  show ?thesis
    using assms(2,3,4) v import_edges_iff [OF assms(1)]
    unfolding entered_ok_def visited_after_def n
    by (auto simp: n)
qed

lemma collect_entered:
  fixes st :: "rid list \<times> string set"
  shows "\<exists>ms. (\<forall>acc. collect_rules h m (acc, snd st) =
              (acc @ concat (map (rules_at h) ms), visited_after h (snd st) ms)) \<and>
        entered_ok h (snd st) ms \<and>
        (\<forall>x\<in>set ms. (m, x) \<in> (import_edges h)\<^sup>*) \<and>
        (m < length (mod_objs h) \<longrightarrow> name_of h m \<in> visited_after h (snd st) ms) \<and>
        (m < length (mod_objs h) \<longrightarrow> name_of h m \<notin> snd st \<longrightarrow> (\<exists>ms'. ms = m # ms'))"
  and "\<exists>ms. (\<forall>acc. collect_imports h imps (acc, snd st) =
              (acc @ concat (map (rules_at h) ms), visited_after h (snd st) ms)) \<and>
        entered_ok h (snd st) ms \<and>
        (\<forall>x\<in>set ms. \<exists>i\<in>set imps. (i, x) \<in> (import_edges h)\<^sup>*) \<and>
        (\<forall>i\<in>set imps. i < length (mod_objs h) \<longrightarrow> name_of h i \<in> visited_after h (snd st) ms)"
proof (induction h m st and h imps st rule: collect_rules_collect_imports.induct)
  case (1 h m collected_rules visited)
  show ?case
  proof (cases "mod_at h m")
    case None
    then have "\<not> m < length (mod_objs h)" by (simp add: mod_at_def split: if_splits)
    with None show ?thesis
      by (intro exI[of _ "[]"]) (simp add: collect_rules.simps visited_after_def entered_ok_Nil)
  next
    case (Some md)
    note md = this
    have n: "name_of h m = mod_name md" using md by (rule name_of_valid)
    show ?thesis
    proof (cases "mod_name md \<in> visited")
      case True
      with md n show ?thesis
        by (intro exI[of _ "[]"]) (auto simp: collect_rules.simps visited_after_def entered_ok_Nil)
    next
      case False
      let ?V = "insert (mod_name md) visited"
      from "1.IH" [OF md False] obtain ms where
        a: "\<forall>acc. collect_imports h (mod_imports md) (acc, ?V) =
              (acc @ concat (map (rules_at h) ms), visited_after h ?V ms)"
        and b: "entered_ok h ?V ms"
        and c: "\<forall>x\<in>set ms. \<exists>i\<in>set (mod_imports md). (i, x) \<in> (import_edges h)\<^sup>*"
        and d: "\<forall>i\<in>set (mod_imports md). i < length (mod_objs h) \<longrightarrow> name_of h i \<in> visited_after h ?V ms"
        by auto
      have va: "visited_after h visited (m # ms) = visited_after h ?V ms"
        by (auto simp: visited_after_def n)
      have A: "\<forall>acc. collect_rules h m (acc, visited) =
              (acc @ concat (map (rules_at h) (m # ms)), visited_after h visited (m # ms))"
        using md False a by (simp add: collect_rules.simps rules_at_valid va)
      have B: "entered_ok h visited (m # ms)"
        using md False b d by (rule entered_ok_Cons)
      have C: "\<forall>x\<in>set (m # ms). (m, x) \<in> (import_edges h)\<^sup>*"
      proof
        fix x assume "x \<in> set (m # ms)"
        then consider "x = m" | "x \<in> set ms" by auto
        then show "(m, x) \<in> (import_edges h)\<^sup>*"
        proof cases
          case 1
          then show ?thesis by simp
        next
          case 2
          with c obtain i where "i \<in> set (mod_imports md)" "(i, x) \<in> (import_edges h)\<^sup>*" by blast
          moreover from this(1) have "(m, i) \<in> import_edges h"
            using import_edges_iff [OF md] by simp
          ultimately show ?thesis by (meson converse_rtrancl_into_rtrancl)
        qed
      qed
      have D: "name_of h m \<in> visited_after h visited (m # ms)"
        by (simp add: visited_after_def)
      from A B C D show ?thesis
        by (intro exI[of _ "m # ms"]) simp
    qed
  qed
next
  case (2 h st)
  show ?case
    by (intro exI[of _ "[]"]) (simp add: visited_after_def entered_ok_Nil)
next
  case (3 h imp_mod rest st)
  from "3.IH"(1) obtain ms1 where
    a1: "\<forall>acc. collect_rules h imp_mod (acc, snd st) =
              (acc @ concat (map (rules_at h) ms1), visited_after h (snd st) ms1)"
    and b1: "entered_ok h (snd st) ms1"
    and c1: "\<forall>x\<in>set ms1. (imp_mod, x) \<in> (import_edges h)\<^sup>*"
    and d1: "imp_mod < length (mod_objs h) \<longrightarrow> name_of h imp_mod \<in> visited_after h (snd st) ms1"
    by blast
  let ?V1 = "visited_after h (snd st) ms1"
  have s1: "snd (collect_rules h imp_mod st) = ?V1"
    using a1 [rule_format, of "fst st"] by simp
  from "3.IH"(2) obtain ms2 where
    a2: "\<forall>acc. collect_imports h rest (acc, ?V1) =
              (acc @ concat (map (rules_at h) ms2), visited_after h ?V1 ms2)"
    and b2: "entered_ok h ?V1 ms2"
    and c2: "\<forall>x\<in>set ms2. \<exists>i\<in>set rest. (i, x) \<in> (import_edges h)\<^sup>*"
    and d2: "\<forall>i\<in>set rest. i < length (mod_objs h) \<longrightarrow> name_of h i \<in> visited_after h ?V1 ms2"
    unfolding s1 by blast
  have va: "visited_after h (snd st) (ms1 @ ms2) = visited_after h ?V1 ms2"
    by (auto simp: visited_after_def)
  have A: "\<forall>acc. collect_imports h (imp_mod # rest) (acc, snd st) =
              (acc @ concat (map (rules_at h) (ms1 @ ms2)), visited_after h (snd st) (ms1 @ ms2))"
    using a1 a2 by (simp add: va)
  have B: "entered_ok h (snd st) (ms1 @ ms2)"
    using b1 b2 by (rule entered_ok_append)
  have C: "\<forall>x\<in>set (ms1 @ ms2). \<exists>i\<in>set (imp_mod # rest). (i, x) \<in> (import_edges h)\<^sup>*"
    using c1 c2 by auto
  have D: "\<forall>i\<in>set (imp_mod # rest). i < length (mod_objs h) \<longrightarrow>
             name_of h i \<in> visited_after h (snd st) (ms1 @ ms2)"
    using d1 d2 unfolding va by (auto simp: visited_after_def)
  from A B C D show ?case
    by (intro exI[of _ "ms1 @ ms2"]) simp
qed


lemma collect_rules_acc:
  "collect_rules h m (acc, vis) =
     (acc @ fst (collect_rules h m ([], vis)), snd (collect_rules h m ([], vis)))"
  using collect_entered(1) [of h m "(acc, vis)"] by auto

lemma collect_imports_acc:
  "collect_imports h imps (acc, vis) =
     (acc @ fst (collect_imports h imps ([], vis)), snd (collect_imports h imps ([], vis)))"
  using collect_entered(2) [of h imps "(acc, vis)"] by auto

lemma names_unique_inj:
  assumes "names_unique h" "x < length (mod_objs h)" "y < length (mod_objs h)"
    "name_of h x = name_of h y"
  shows "x = y"
proof -
  have "map mod_name (mod_objs h) ! x = map mod_name (mod_objs h) ! y"
    using assms(2,3,4) by (simp add: name_of_def mod_at_def)
  moreover have "distinct (map mod_name (mod_objs h))"
    using assms(1) by (simp add: names_unique_def)
  moreover have "x < length (map mod_name (mod_objs h))" "y < length (map mod_name (mod_objs h))"
    using assms(2,3) by simp_all
  ultimately show ?thesis
    by (simp only: nth_eq_iff_index_eq)
qed

lemma heap_ok_edge: "heap_ok h \<Longrightarrow> (x, y) \<in> import_edges h \<Longrightarrow> y < length (mod_objs h)"
  by (auto simp: heap_ok_def import_edges_def mod_at_def list_all_iff split: if_splits)

lemma entered_closed:
  assumes ok: "heap_ok h" and uniq: "names_unique h" and ent: "entered_ok h {} ms"
    and root: "m \<in> set ms" and reach: "(m, y) \<in> (import_edges h)\<^sup>*"
  shows "y \<in> set ms"
  using reach
proof (induction rule: rtrancl_induct)
  case base
  show ?case by (rule root)
next
  case (step x y)
  have y: "y < length (mod_objs h)" using ok step.hyps(2) by (rule heap_ok_edge)
  with ent step have "name_of h y \<in> name_of h ` set ms"
    by (auto simp: entered_ok_def visited_after_def)
  then obtain z where z: "z \<in> set ms" "name_of h y = name_of h z" by blast
  with ent have "z < length (mod_objs h)" by (simp add: entered_ok_def)
  with uniq y z(2) have "y = z" by (intro names_unique_inj [of h y z])
  with z(1) show ?case by simp
qed

lemma demo_heap_ok: "heap_ok demo_heap"
  by (simp add: heap_ok_def demo_heap_def demo_rules_def)

lemma demo_names_unique: "names_unique demo_heap"
  by (simp add: names_unique_def demo_heap_def)

lemma collect_rules_any_rules:
  "all_rules_of (h\<lparr>rule_objs := rs\<rparr>) m = all_rules_of h m"
  using collect_rules_mods_only(1) [of "h\<lparr>rule_objs := rs\<rparr>" h] by (simp add: all_rules_of_def)

lemma all_rules_of_root:
  assumes "mod_at h m = Some md"
  shows "all_rules_of h m = rules md @ fst (collect_imports h (mod_imports md) ([], {mod_name md}))"
proof -
  have "all_rules_of h m = fst (collect_imports h (mod_imports md) (rules md, {mod_name md}))"
    using assms by (simp add: all_rules_of_def collect_rules.simps)
  also have "\<dots> = rules md @ fst (collect_imports h (mod_imports md) ([], {mod_name md}))"
    by (subst collect_imports_acc) simp
  finally show ?thesis .
qed

lemma check_rules_skip_inactive:
  "\<not> is_active h x \<Longrightarrow> check_rules h args (x # xs) = check_rules h args xs"
  by (simp add: is_active_def split: option.splits)

lemma all_rules_of_reachable:
  assumes "heap_ok h" and "names_unique h" and "m < length (mod_objs h)"
  shows "\<exists>ms. all_rules_of h m = concat (map (rules_at h) (m # ms)) \<and> distinct (m # ms) \<and>
              set (m # ms) = (import_edges h)\<^sup>* `` {m}"
proof -
  from collect_entered(1) [of h m "([], {})"] obtain ms0 where
    a: "\<forall>acc. collect_rules h m (acc, {}) =
              (acc @ concat (map (rules_at h) ms0), visited_after h {} ms0)"
    and b: "entered_ok h {} ms0"
    and c: "\<forall>x\<in>set ms0. (m, x) \<in> (import_edges h)\<^sup>*"
    and g: "m < length (mod_objs h) \<longrightarrow> name_of h m \<notin> {} \<longrightarrow> (\<exists>ms'. ms0 = m # ms')"
    by auto
  from g assms(3) obtain ms where ms: "ms0 = m # ms" by auto
  have r: "all_rules_of h m = concat (map (rules_at h) (m # ms))"
    using a [rule_format, of "[]"] by (simp add: all_rules_of_def ms)
  have "distinct (map (name_of h) ms0)" using b by (simp add: entered_ok_def)
  then have d: "distinct (m # ms)" unfolding ms by (simp only: distinct_map)
  have "set ms0 = (import_edges h)\<^sup>* `` {m}"
  proof
    show "set ms0 \<subseteq> (import_edges h)\<^sup>* `` {m}" using c by auto
    show "(import_edges h)\<^sup>* `` {m} \<subseteq> set ms0"
      using entered_closed [OF assms(1,2) b, of m] ms by auto
  qed
  then have e: "set (m # ms) = (import_edges h)\<^sup>* `` {m}" by (simp add: ms)
  from r d e show ?thesis by blast
qed




subsection \<open>The registry invariant\<close>

lemma registry_ok_names_unique:
  assumes "registry_ok sys h"
  shows "names_unique h"
proof -
  have "\<forall>i < length (mod_objs h). \<forall>j < length (mod_objs h). i \<noteq> j \<longrightarrow>
          mod_name (mod_objs h ! i) \<noteq> mod_name (mod_objs h ! j)"
  proof (intro allI impI)
    fix i j assume i: "i < length (mod_objs h)" and j: "j < length (mod_objs h)" and ne: "i \<noteq> j"
    from assms i have "modules sys (name_of h i) = Some i" by (simp add: registry_ok_def)
    moreover from assms j have "modules sys (name_of h j) = Some j" by (simp add: registry_ok_def)
    ultimately have "name_of h i \<noteq> name_of h j" using ne by auto
    then show "mod_name (mod_objs h ! i) \<noteq> mod_name (mod_objs h ! j)"
      using i j by (simp add: name_of_def mod_at_def)
  qed
  then show ?thesis
    by (simp add: names_unique_def distinct_conv_nth)
qed

lemma registry_ok_empty: "registry_ok new_PhiSystem \<lparr>rule_objs = [], mod_objs = []\<rparr>"
  by (simp add: registry_ok_def new_PhiSystem_def)

lemma heap_ok_empty: "heap_ok \<lparr>rule_objs = [], mod_objs = []\<rparr>"
  by (simp add: heap_ok_def)

lemma name_of_nth: "m < length (mod_objs h) \<Longrightarrow> name_of h m = mod_name (mod_objs h ! m)"
  by (simp add: name_of_def mod_at_def)

lemma create_module_existing:
  "modules sys n = Some m \<Longrightarrow>
     create_module n sys h = (m, sys\<lparr>current_module := Some m\<rparr>, h, [])"
  by (simp add: create_module_def)

lemma create_module_keeps:
  assumes "registry_ok sys h" "heap_ok h" "create_module n sys h = (m, sys', h', ev)"
  shows "registry_ok sys' h' \<and> heap_ok h'"
proof (cases "modules sys n")
  case (Some m0)
  with assms show ?thesis
    by (auto simp: create_module_def registry_ok_def)
next
  case None
  then have eq: "m = length (mod_objs h)"
      "sys' = sys\<lparr>modules := (modules sys)(n \<mapsto> length (mod_objs h)),
                  current_module := Some (length (mod_objs h))\<rparr>"
      "h' = h\<lparr>mod_objs := mod_objs h @ [\<lparr>mod_name = n, rules = [], mod_imports = []\<rparr>]\<rparr>"
    using assms(3) by (auto simp: create_module_def new_Module_def)
  have fresh: "\<forall>m < length (mod_objs h). name_of h m \<noteq> n"
    using assms(1) None by (auto simp: registry_ok_def)
  have nm: "\<And>x. x < length (mod_objs h) \<Longrightarrow> name_of h' x = name_of h x"
    by (simp add: eq name_of_def mod_at_def nth_append)
  have nl: "name_of h' (length (mod_objs h)) = n"
    by (simp add: eq name_of_def mod_at_def)
  have len: "length (mod_objs h') = Suc (length (mod_objs h))"
    by (simp add: eq)
  have 1: "\<forall>n' m'. modules sys' n' = Some m' \<longrightarrow> m' < length (mod_objs h') \<and> name_of h' m' = n'"
  proof (intro allI impI)
    fix n' m' assume a: "modules sys' n' = Some m'"
    show "m' < length (mod_objs h') \<and> name_of h' m' = n'"
    proof (cases "n' = n")
      case True
      with a have "m' = length (mod_objs h)" by (simp add: eq)
      with True nl len show ?thesis by simp
    next
      case False
      with a have "modules sys n' = Some m'" by (simp add: eq)
      with assms(1) have "m' < length (mod_objs h)" "name_of h m' = n'"
        by (auto simp: registry_ok_def)
      with nm len show ?thesis by simp
    qed
  qed
  have 2: "\<forall>m' < length (mod_objs h'). modules sys' (name_of h' m') = Some m'"
  proof (intro allI impI)
    fix m' assume a: "m' < length (mod_objs h')"
    show "modules sys' (name_of h' m') = Some m'"
    proof (cases "m' = length (mod_objs h)")
      case True
      then show ?thesis using nl by (simp add: eq(2))
    next
      case False
      with a len have lt: "m' < length (mod_objs h)" by simp
      with fresh have "name_of h m' \<noteq> n" by simp
      moreover from assms(1) lt have "modules sys (name_of h m') = Some m'"
        by (simp add: registry_ok_def)
      ultimately show ?thesis using nm [OF lt] by (simp add: eq(2))
    qed
  qed
  have 3: "\<forall>cur. current_module sys' = Some cur \<longrightarrow> cur < length (mod_objs h')"
    by (simp add: eq)
  have 4: "heap_ok h'"
    using assms(2) by (fastforce simp: heap_ok_def eq list_all_iff less_Suc_eq)
  from 1 2 3 4 show ?thesis unfolding registry_ok_def by blast
qed

lemma parse_import_keeps:
  assumes "registry_ok sys h" "heap_ok h" "parse_import n sys h = (h', ev)"
  shows "registry_ok sys h' \<and> heap_ok h'"
proof (cases "current_module sys")
  case None
  with assms show ?thesis by (simp add: parse_import_def)
next
  case (Some cur)
  note cur = this
  show ?thesis
  proof (cases "get_module sys n")
    case None
    with cur assms show ?thesis by (simp add: parse_import_def)
  next
    case (Some imp)
    from assms(1) cur have c: "cur < length (mod_objs h)" by (simp add: registry_ok_def)
    from assms(1) Some have i: "imp < length (mod_objs h)"
      by (auto simp: registry_ok_def get_module_def)
    let ?md = "mod_objs h ! cur"
    have eq: "h' = h\<lparr>mod_objs := (mod_objs h)[cur := ?md\<lparr>mod_imports := mod_imports ?md @ [imp]\<rparr>]\<rparr>"
      using assms(3) cur Some c by (simp add: parse_import_def add_import_def mod_at_def)
    have nm: "\<And>x. name_of h' x = name_of h x"
      using c by (auto simp: eq name_of_def mod_at_def nth_list_update)
    have len: "length (mod_objs h') = length (mod_objs h)" by (simp add: eq)
    have r: "registry_ok sys h'"
      using assms(1) unfolding registry_ok_def nm len by simp
    have "heap_ok h'"
      unfolding heap_ok_def list_all_length
    proof (intro allI impI)
      fix k assume "k < length (mod_objs h')"
      then have k: "k < length (mod_objs h)" by (simp add: eq)
      from assms(2) k have old:
        "(\<forall>j < length (rules (mod_objs h ! k)). rules (mod_objs h ! k) ! j < length (rule_objs h)) \<and>
         (\<forall>j < length (mod_imports (mod_objs h ! k)). mod_imports (mod_objs h ! k) ! j < length (mod_objs h))"
        by (simp add: heap_ok_def list_all_length)
      show "(\<forall>j < length (rules (mod_objs h' ! k)). rules (mod_objs h' ! k) ! j < length (rule_objs h')) \<and>
            (\<forall>j < length (mod_imports (mod_objs h' ! k)). mod_imports (mod_objs h' ! k) ! j < length (mod_objs h'))"
        using old k c i by (auto simp: eq nth_list_update nth_append)
    qed
    with r show ?thesis by simp
  qed
qed

lemma parse_axiom_keeps:
  assumes "registry_ok sys h" "heap_ok h" "parse_axiom rl n k sys h = (h', ev)"
  shows "registry_ok sys h' \<and> heap_ok h'"
proof (cases "current_module sys")
  case None
  with assms show ?thesis by (simp add: parse_axiom_def)
next
  case (Some cur)
  from assms(1) Some have c: "cur < length (mod_objs h)" by (simp add: registry_ok_def)
  let ?md = "mod_objs h ! cur"
  let ?r = "\<lparr>name = n, kind = k, logic = rl n, source_module = name_of h cur, active = True\<rparr>"
  have eq: "h' = h\<lparr>rule_objs := rule_objs h @ [?r],
                  mod_objs := (mod_objs h)[cur := ?md\<lparr>rules := rules ?md @ [length (rule_objs h)]\<rparr>]\<rparr>"
    using assms(3) Some c by (simp add: parse_axiom_def new_Rule_def add_rule_def mod_at_def)
  have nm: "\<And>x. name_of h' x = name_of h x"
    using c by (auto simp: eq name_of_def mod_at_def nth_list_update)
  have len: "length (mod_objs h') = length (mod_objs h)" by (simp add: eq)
  have r: "registry_ok sys h'"
    using assms(1) unfolding registry_ok_def nm len by simp
  have "heap_ok h'"
    unfolding heap_ok_def list_all_length
  proof (intro allI impI)
    fix j assume "j < length (mod_objs h')"
    then have j: "j < length (mod_objs h)" by (simp add: eq)
    from assms(2) j have old:
      "(\<forall>i < length (rules (mod_objs h ! j)). rules (mod_objs h ! j) ! i < length (rule_objs h)) \<and>
       (\<forall>i < length (mod_imports (mod_objs h ! j)). mod_imports (mod_objs h ! j) ! i < length (mod_objs h))"
      by (simp add: heap_ok_def list_all_length)
    show "(\<forall>i < length (rules (mod_objs h' ! j)). rules (mod_objs h' ! j) ! i < length (rule_objs h')) \<and>
          (\<forall>i < length (mod_imports (mod_objs h' ! j)). mod_imports (mod_objs h' ! j) ! i < length (mod_objs h'))"
      using old j c by (auto simp: eq nth_list_update nth_append less_Suc_eq)
  qed
  with r show ?thesis by simp
qed

lemma parse_line_keeps:
  fixes out :: "'r event list"
  assumes "registry_ok sys h" "heap_ok h" "parse_line rl l (sys, h, out) = (sys', h', out')"
  shows "registry_ok sys' h' \<and> heap_ok h'"
proof (cases l)
  case (ModuleLine n)
  obtain m s1 h1 ev where c: "create_module n sys h = (m, s1, h1, ev :: 'r event list)"
    by (cases "create_module n sys h :: mid \<times> PhiSystem \<times> 'a heap \<times> 'r event list") auto
  with assms(3) ModuleLine have "sys' = s1" "h' = h1" by auto
  with create_module_keeps [OF assms(1,2) c] show ?thesis by simp
next
  case (ImportLine n)
  obtain h1 ev where c: "parse_import n sys h = (h1, ev :: 'r event list)"
    by (cases "parse_import n sys h :: 'a heap \<times> 'r event list") auto
  with assms(3) ImportLine have "sys' = sys" "h' = h1" by auto
  with parse_import_keeps [OF assms(1,2) c] show ?thesis by simp
next
  case (AxiomLine n k)
  obtain h1 ev where c: "parse_axiom rl n k sys h = (h1, ev :: 'r event list)"
    by (cases "parse_axiom rl n k sys h :: 'a heap \<times> 'r event list") auto
  with assms(3) AxiomLine have "sys' = sys" "h' = h1" by auto
  with parse_axiom_keeps [OF assms(1,2) c] show ?thesis by simp
next
  case OtherLine
  with assms show ?thesis by simp
qed

lemma fold_parse_line_keeps:
  "registry_ok sys h \<Longrightarrow> heap_ok h \<Longrightarrow>
   fold (parse_line rl) ls (sys, h, out) = (sys', h', out') \<Longrightarrow>
     registry_ok sys' h' \<and> heap_ok h'"
proof (induction ls arbitrary: sys h out)
  case Nil
  then show ?case by simp
next
  case (Cons l ls)
  obtain s1 h1 o1 where st: "parse_line rl l (sys, h, out) = (s1, h1, o1)"
    by (cases "parse_line rl l (sys, h, out)") auto
  from parse_line_keeps [OF Cons.prems(1,2) st] have "registry_ok s1 h1" "heap_ok h1" by simp_all
  moreover from Cons.prems(3) st have "fold (parse_line rl) ls (s1, h1, o1) = (sys', h', out')"
    by simp
  ultimately show ?case by (rule Cons.IH)
qed

lemma parse_keeps:
  "registry_ok sys h \<Longrightarrow> heap_ok h \<Longrightarrow> parse rl ls sys h = (sys', h', out') \<Longrightarrow>
     registry_ok sys' h' \<and> heap_ok h' \<and> names_unique h'"
  unfolding parse_def
  using fold_parse_line_keeps registry_ok_names_unique by blast

lemma collect_rules_enter:
  assumes "mod_at h i = Some md" and "mod_name md \<notin> vis"
  shows "collect_rules h i ([], vis) =
           (rules md @ fst (collect_imports h (mod_imports md) ([], insert (mod_name md) vis)),
            snd (collect_imports h (mod_imports md) ([], insert (mod_name md) vis)))"
proof -
  have "collect_rules h i ([], vis) =
          collect_imports h (mod_imports md) (rules md, insert (mod_name md) vis)"
    using assms by (simp add: collect_rules.simps)
  also have "\<dots> =
          (rules md @ fst (collect_imports h (mod_imports md) ([], insert (mod_name md) vis)),
           snd (collect_imports h (mod_imports md) ([], insert (mod_name md) vis)))"
    by (rule collect_imports_acc)
  finally show ?thesis .
qed

lemma collect_imports_step:
  "collect_imports h (i # rest) ([], vis) =
     (fst (collect_rules h i ([], vis)) @
        fst (collect_imports h rest ([], snd (collect_rules h i ([], vis)))),
      snd (collect_imports h rest ([], snd (collect_rules h i ([], vis)))))"
proof -
  obtain c1 v1 where r: "collect_rules h i ([], vis) = (c1, v1)"
    by (cases "collect_rules h i ([], vis)")
  have "collect_imports h (i # rest) ([], vis) = collect_imports h rest (c1, v1)"
    by (simp add: r)
  also have "\<dots> = (c1 @ fst (collect_imports h rest ([], v1)), snd (collect_imports h rest ([], v1)))"
    by (rule collect_imports_acc)
  finally show ?thesis by (simp add: r)
qed

lemma collect_rules_skip:
  "name_of h i \<in> vis \<or> mod_at h i = None \<Longrightarrow> collect_rules h i (acc, vis) = (acc, vis)"
  by (auto simp: collect_rules.simps name_of_def split: option.splits)

lemma tree_heap_ok: "heap_ok tree_heap"
  by (simp add: heap_ok_def tree_heap_def demo_rules_def)

lemma tree_names_unique: "names_unique tree_heap"
  by (simp add: names_unique_def tree_heap_def)

lemma tree_all_rules: "all_rules_of tree_heap 0 = [0, 1, 2, 3]"
  by (simp add: all_rules_of_def tree_heap_def collect_rules.simps mod_at_def)

section \<open>Properties\<close>

text \<open>
  C9. A rule of \<^verbatim>\<open>phi_kernel_poc.py\<close> whose \<open>active\<close> flag is false answers \<^verbatim>\<open>True\<close> to
  \<^verbatim>\<open>check\<close> whatever its predicate and the arguments are; the predicate is not called, so
  this holds even where the predicate would raise.
\<close>

theorem inactive_rule_check_true:
  "\<not> active_poc self \<Longrightarrow> check self args = Some True"
  by (simp add: check_def)

theorem inactive_rule_check_true_witness:
  "\<not> active_poc \<lparr>name_poc = ''commutativity'', predicate = (\<lambda>args::int list. None),
                  kind_poc = SOFT, active_poc = False\<rparr> \<and>
   check \<lparr>name_poc = ''commutativity'', predicate = (\<lambda>args::int list. None),
          kind_poc = SOFT, active_poc = False\<rparr> [2, 3] = Some True"
  using inactive_rule_check_true
    [of "\<lparr>name_poc = ''commutativity'', predicate = (\<lambda>args::int list. None),
          kind_poc = SOFT, active_poc = False\<rparr>" "[2, 3]"]
  by simp

text \<open>
  C1. When a call of \<^verbatim>\<open>validate\<close> evaluates the predicate of an active soft rule and gets
  \<^verbatim>\<open>False\<close> (the module is found, the transformation returns, and no rule earlier in
  check order stops the loop), it switches that rule off and calls \<^verbatim>\<open>validate\<close> again with
  the same module name, transformation, arguments and registry: verdict and final store are
  those of the second call, whose output follows the conflict lines of the first. The second
  call runs the transformation again and collects the same rule list again, in a store
  where the rule is inactive; the rule is inactive when the call returns.
\<close>

theorem soft_violation_restarts:
  assumes "get_module sys mn = Some tm" and "func args = Some res"
    and "all_rules_of h tm = pre @ r # post"
    and "\<forall>x\<in>set pre. \<not> violated h args x"
    and "rule_at h r = Some rule" and "active rule" and "kind rule = SOFT"
    and "logic rule args = Some False"
  shows "fst (validate mn fn func args sys h) = fst (validate mn fn func args sys (deactivate r h))
         \<and> fst (snd (validate mn fn func args sys h)) =
             [ValidationIn mn, FunctionLine fn, ResultLine res, Audit (length (pre @ r # post)),
              Conflict (name rule) (source_module rule), AIFix]
             @ fst (snd (validate mn fn func args sys (deactivate r h)))
         \<and> snd (snd (validate mn fn func args sys h)) =
             snd (snd (validate mn fn func args sys (deactivate r h)))
         \<and> rule_at (deactivate r h) r = Some (rule\<lparr>active := False\<rparr>)
         \<and> all_rules_of (deactivate r h) tm = pre @ r # post
         \<and> (\<exists>out'. fst (snd (validate mn fn func args sys (deactivate r h))) =
               [ValidationIn mn, FunctionLine fn, ResultLine res, Audit (length (pre @ r # post))] @ out')
         \<and> \<not> is_active (snd (snd (validate mn fn func args sys h))) r"
proof -
  have exit: "check_rules h args (all_rules_of h tm) = SoftFix r"
    using assms by (simp add: check_rules_prefix)
  have line: "conflict_line h r = (Conflict (name rule) (source_module rule) :: 'c event)"
    using assms(5) by (simp add: conflict_line_def)
  have 1: "fst (validate mn fn func args sys h) = fst (validate mn fn func args sys (deactivate r h))
      \<and> fst (snd (validate mn fn func args sys h)) =
             [ValidationIn mn, FunctionLine fn, ResultLine res, Audit (length (pre @ r # post)),
              Conflict (name rule) (source_module rule), AIFix]
             @ fst (snd (validate mn fn func args sys (deactivate r h)))
      \<and> snd (snd (validate mn fn func args sys h)) =
             snd (snd (validate mn fn func args sys (deactivate r h)))"
    using validate_SoftFix_proj[of sys mn tm func args res h r fn] assms(1,2) exit
    by (simp add: line assms(3))
  have 2: "rule_at (deactivate r h) r = Some (rule\<lparr>active := False\<rparr>)"
    using assms(5) by (simp add: rule_at_deactivate)
  have 3: "all_rules_of (deactivate r h) tm = pre @ r # post"
    using assms(3) by simp
  have 4: "\<exists>out'. fst (snd (validate mn fn func args sys (deactivate r h))) =
               [ValidationIn mn, FunctionLine fn, ResultLine res, Audit (length (pre @ r # post))] @ out'"
    using validate_head[of sys mn tm func args res fn "deactivate r h"] assms(1,2) 3 by simp
  have "\<not> is_active (deactivate r h) r"
    using 2 by (simp add: is_active_def)
  moreover have "only_deactivated (deactivate r h) (snd (snd (validate mn fn func args sys (deactivate r h))))"
    by (rule validate_only_deactivated)
  ultimately have "\<not> is_active (snd (snd (validate mn fn func args sys (deactivate r h)))) r"
    using only_deactivated_is_active by blast
  then have 5: "\<not> is_active (snd (snd (validate mn fn func args sys h))) r"
    using assms(1,2) exit by (simp add: validate_SoftFix_proj(3))
  from 1 2 3 4 5 show ?thesis by blast
qed

theorem soft_violation_restarts_witness:
  "get_module demo_sys ''Finance'' = Some 1 \<and> multiply [100, 5] = Some 500 \<and>
   all_rules_of demo_heap 1 = [1] @ 2 # [0, 3] \<and>
   \<not> violated demo_heap [100, 5] 1 \<and>
   rule_at demo_heap 2 = Some (demo_rules ! 2) \<and> active (demo_rules ! 2) \<and>
   kind (demo_rules ! 2) = SOFT \<and> logic (demo_rules ! 2) [100, 5] = Some False \<and>
   fst (snd (validate ''Finance'' ''calc'' multiply [100, 5] demo_sys demo_heap)) =
     [ValidationIn ''Finance'', FunctionLine ''calc'', ResultLine 500, Audit 4,
      Conflict ''small'' ''Finance'', AIFix] @
     fst (snd (validate ''Finance'' ''calc'' multiply [100, 5] demo_sys (deactivate 2 demo_heap))) \<and>
   \<not> is_active (snd (snd (validate ''Finance'' ''calc'' multiply [100, 5] demo_sys demo_heap))) 2"
proof -
  have h1: "get_module demo_sys ''Finance'' = Some 1"
    by (simp add: get_module_def demo_sys_def)
  have h2: "multiply [100, 5] = Some 500"
    by (simp add: multiply_def)
  have h3: "all_rules_of demo_heap 1 = [1] @ 2 # [0, 3]"
    using demo_all_rules by simp
  have h4: "\<forall>x\<in>set [1]. \<not> violated demo_heap [100, 5] x"
    by (simp add: violated_def rule_at_def demo_heap_def demo_rules_def)
  have h5: "rule_at demo_heap 2 = Some (demo_rules ! 2)"
    by (simp add: rule_at_def demo_heap_def demo_rules_def)
  have h6: "active (demo_rules ! 2)" and h7: "kind (demo_rules ! 2) = SOFT"
    and h8: "logic (demo_rules ! 2) [100, 5] = Some False"
    by (simp_all add: demo_rules_def)
  have nm: "name (demo_rules ! 2) = ''small''" "source_module (demo_rules ! 2) = ''Finance''"
    by (simp_all add: demo_rules_def)
  note c = soft_violation_restarts
      [where sys = demo_sys and mn = "''Finance''" and tm = 1 and func = multiply
         and args = "[100, 5]" and res = 500 and h = demo_heap and pre = "[1]" and r = 2
         and post = "[0, 3]" and rule = "demo_rules ! 2" and fn = "''calc''",
       OF h1 h2 h3 h4 h5 h6 h7 h8]
  from c have t: "fst (snd (validate ''Finance'' ''calc'' multiply [100, 5] demo_sys demo_heap)) =
     [ValidationIn ''Finance'', FunctionLine ''calc'', ResultLine 500, Audit 4,
      Conflict ''small'' ''Finance'', AIFix] @
     fst (snd (validate ''Finance'' ''calc'' multiply [100, 5] demo_sys (deactivate 2 demo_heap)))"
    by (simp add: nm)
  from c have a: "\<not> is_active (snd (snd (validate ''Finance'' ''calc'' multiply [100, 5] demo_sys demo_heap))) 2"
    by blast
  from h4 have h4': "\<not> violated demo_heap [100, 5] 1" by simp
  from h1 h2 h3 h4' h5 h6 h7 h8 t a show ?thesis by blast
qed



text \<open>
  C3. \<^verbatim>\<open>validate\<close> is a total function: its recursion ends because every restart switches
  off a rule that was active. A call restarts at most \<open>k\<close> times and runs at most
  \<open>k + 1\<close> passes, where \<open>k\<close> is the number of active soft rules that the collector
  reaches from the target module in the store at the start of the call.
\<close>

theorem restart_bound:
  "restarts (fst (snd (validate mn fn func args sys h))) \<le> soft_reachable sys h mn \<and>
   passes (fst (snd (validate mn fn func args sys h))) \<le> soft_reachable sys h mn + 1"
proof (induction mn fn func args sys h rule: validate.induct)
  case (1 mn fn func args sys h)
  show ?case
  proof (cases "get_module sys mn")
    case None
    then show ?thesis by (subst (1 2) validate.simps) (simp add: restarts_def passes_def)
  next
    case (Some tm)
    note tm = this
    show ?thesis
    proof (cases "func args")
      case None
      with tm show ?thesis by (subst (1 2) validate.simps) (simp add: restarts_def passes_def)
    next
      case (Some res)
      note res = this
      show ?thesis
      proof (cases "check_rules h args (all_rules_of h tm)")
        case LoopDone
        with tm res show ?thesis
          by (subst (1 2) validate.simps) (simp add: restarts_def passes_def Let_def conflict_line_def)
      next
        case (HardStop r)
        with tm res show ?thesis
          by (subst (1 2) validate.simps) (simp add: restarts_def passes_def Let_def conflict_line_def split: option.splits)
      next
        case (SoftFix r)
        then have r: "r \<in> set (all_rules_of h tm)" "is_active_soft h r"
          by (auto dest!: check_rules_SoftFix simp: is_active_soft_def)
        have dec: "soft_reachable sys (deactivate r h) mn < soft_reachable sys h mn"
          using tm r by (rule soft_reachable_decreases)
        have IH: "restarts (fst (snd (validate mn fn func args sys (deactivate r h)))) \<le> soft_reachable sys (deactivate r h) mn \<and>
                  passes (fst (snd (validate mn fn func args sys (deactivate r h)))) \<le> soft_reachable sys (deactivate r h) mn + 1"
          using tm res SoftFix by (intro "1.IH") auto
        have unf: "fst (snd (validate mn fn func args sys h)) =
             [ValidationIn mn, FunctionLine fn, ResultLine res, Audit (length (all_rules_of h tm)), conflict_line h r, AIFix]
               @ fst (snd (validate mn fn func args sys (deactivate r h)))"
          using tm res SoftFix by (subst validate.simps) (simp add: Let_def split: prod.splits)
        show ?thesis using IH dec unfolding unf
          by (auto simp: restarts_def passes_def conflict_line_def split: option.splits)
      qed
    qed
  qed
qed

theorem restart_bound_witness:
  "restarts (fst (snd (validate ''Finance'' ''calc'' multiply [100, 5] demo_sys demo_heap))) = 2 \<and>
   passes (fst (snd (validate ''Finance'' ''calc'' multiply [100, 5] demo_sys demo_heap))) = 3 \<and>
   soft_reachable demo_sys demo_heap ''Finance'' = 3 \<and>
   restarts (fst (snd (validate ''Finance'' ''calc'' multiply [100, 5] demo_sys demo_heap)))
     \<le> soft_reachable demo_sys demo_heap ''Finance'' \<and>
   passes (fst (snd (validate ''Finance'' ''calc'' multiply [100, 5] demo_sys demo_heap)))
     \<le> soft_reachable demo_sys demo_heap ''Finance'' + 1"
proof -
  have "restarts (fst (snd (validate ''Finance'' ''calc'' multiply [100, 5] demo_sys demo_heap))) = 2"
    and "passes (fst (snd (validate ''Finance'' ''calc'' multiply [100, 5] demo_sys demo_heap))) = 3"
    by (simp_all add: demo_run_accept restarts_def passes_def)
  with restart_bound [of "''Finance''" "''calc''" multiply "[100, 5]" demo_sys demo_heap]
    demo_soft_reachable
  show ?thesis by blast
qed

text \<open>
  C5. Over any sequence of \<^verbatim>\<open>validate\<close> calls the modules stay as they were and every
  rule object keeps its name, kind, predicate and origin; the only change to a rule is
  \<open>active\<close> becoming false. Hence no rule is switched on again, and the rules that are
  active among those collected from any module are, after the calls, a subset of what they
  were before. A call that prints no \<^verbatim>\<open>[AI-FIX]\<close> line (no soft repair) leaves the store
  untouched.
\<close>

theorem rules_only_deactivated:
  fixes calls :: "('a, 'r) call list" and h :: "'a heap"
  shows "only_deactivated h (validate_all calls h) \<and>
         (\<forall>r. is_active (validate_all calls h) r \<longrightarrow> is_active h r) \<and>
         (\<forall>m. set (active_rules_of (validate_all calls h) m) \<subseteq> set (active_rules_of h m)) \<and>
         (\<forall>mn fn (func :: 'a list \<Rightarrow> 'r option) args sys.
            AIFix \<notin> set (fst (snd (validate mn fn func args sys h))) \<longrightarrow>
            snd (snd (validate mn fn func args sys h)) = h)"
proof -
  have 1: "only_deactivated h (validate_all calls h)"
    by (rule validate_all_only_deactivated)
  have 2: "\<forall>r. is_active (validate_all calls h) r \<longrightarrow> is_active h r"
    using 1 only_deactivated_is_active by blast
  have 3: "\<forall>m. set (active_rules_of (validate_all calls h) m) \<subseteq> set (active_rules_of h m)"
    using 1 only_deactivated_active_rules by blast
  have 4: "\<forall>mn fn (func :: 'a list \<Rightarrow> 'r option) args sys.
            AIFix \<notin> set (fst (snd (validate mn fn func args sys h))) \<longrightarrow>
            snd (snd (validate mn fn func args sys h)) = h"
    using validate_no_restart_same_heap by blast
  from 1 2 3 4 show ?thesis by blast
qed

theorem rules_only_deactivated_witness:
  "only_deactivated demo_heap (validate_all demo_calls demo_heap) \<and>
   is_active demo_heap 2 \<and> \<not> is_active (validate_all demo_calls demo_heap) 2 \<and>
   is_active (validate_all demo_calls demo_heap) 0 \<and> is_active demo_heap 0 \<and>
   set (active_rules_of (validate_all demo_calls demo_heap) 1) \<subseteq> set (active_rules_of demo_heap 1) \<and>
   active_rules_of demo_heap 1 = [1, 2, 0, 3] \<and>
   active_rules_of (validate_all demo_calls demo_heap) 1 = [1, 0] \<and>
   AIFix \<notin> set (fst (snd (validate ''Finance'' ''calc'' multiply [100, 10] demo_sys
                               (validate_all demo_calls demo_heap)))) \<and>
   snd (snd (validate ''Finance'' ''calc'' multiply [100, 10] demo_sys
              (validate_all demo_calls demo_heap))) = validate_all demo_calls demo_heap"
proof -
  note c = rules_only_deactivated [of demo_heap demo_calls]
  note d = rules_only_deactivated [of "validate_all demo_calls demo_heap" "[] :: (int, int) call list"]
  have a: "is_active demo_heap 2" "is_active demo_heap 0"
    by code_simp+
  have b: "\<not> is_active (validate_all demo_calls demo_heap) 2"
    "is_active (validate_all demo_calls demo_heap) 0"
    by code_simp+
  have e: "active_rules_of demo_heap 1 = [1, 2, 0, 3]"
    "active_rules_of (validate_all demo_calls demo_heap) 1 = [1, 0]"
    by code_simp+
  have f: "AIFix \<notin> set (fst (snd (validate ''Finance'' ''calc'' multiply [100, 10] demo_sys
                               (validate_all demo_calls demo_heap))))"
    by code_simp
  from d f have g: "snd (snd (validate ''Finance'' ''calc'' multiply [100, 10] demo_sys
              (validate_all demo_calls demo_heap))) = validate_all demo_calls demo_heap"
    by blast
  from c a b e f g show ?thesis by blast
qed

text \<open>
  C4. In a store without dangling references and with one module object per name (what
  \<^verbatim>\<open>create_module\<close> builds), the collector is a depth-first preorder traversal. At the
  root and at every module it enters, with whatever visited set it arrives, it appends the
  module's own rules in declaration order and then what the imports contribute, the
  imports taken in declaration order and each traversed completely, with the visited set
  the previous one leaves, before the next. A module whose name is already visited
  contributes nothing, and what is collected is appended to what was collected before.
  The result is the concatenation of the rules of the modules reachable from the root
  through imports, each reachable module taken exactly once, also when the import graph
  has cycles or diamonds.
\<close>

theorem collect_preorder_once:
  assumes "heap_ok h" and "names_unique h" and "mod_at h m = Some md"
  shows "all_rules_of h m =
           rules md @ fst (collect_imports h (mod_imports md) ([], {mod_name md})) \<and>
         (\<forall>i rest vis. fst (collect_imports h (i # rest) ([], vis)) =
            fst (collect_rules h i ([], vis)) @
            fst (collect_imports h rest ([], snd (collect_rules h i ([], vis))))) \<and>
         (\<forall>i acc vis. name_of h i \<in> vis \<longrightarrow> collect_rules h i (acc, vis) = (acc, vis)) \<and>
         (\<exists>ms. all_rules_of h m = concat (map (rules_at h) (m # ms)) \<and> distinct (m # ms) \<and>
               set (m # ms) = (import_edges h)\<^sup>* `` {m}) \<and>
         (\<forall>i mdi vis. mod_at h i = Some mdi \<and> mod_name mdi \<notin> vis \<longrightarrow>
            collect_rules h i ([], vis) =
              (rules mdi @ fst (collect_imports h (mod_imports mdi) ([], insert (mod_name mdi) vis)),
               snd (collect_imports h (mod_imports mdi) ([], insert (mod_name mdi) vis)))) \<and>
         (\<forall>i rest vis. snd (collect_imports h (i # rest) ([], vis)) =
            snd (collect_imports h rest ([], snd (collect_rules h i ([], vis))))) \<and>
         (\<forall>vis. collect_imports h [] ([], vis) = ([], vis)) \<and>
         (\<forall>i acc vis. collect_rules h i (acc, vis) =
            (acc @ fst (collect_rules h i ([], vis)), snd (collect_rules h i ([], vis)))) \<and>
         (\<forall>i acc vis. mod_at h i = None \<longrightarrow> collect_rules h i (acc, vis) = (acc, vis))"
proof -
  have v: "m < length (mod_objs h)"
    using assms(3) by (simp add: mod_at_def split: if_splits)
  have 1: "all_rules_of h m =
           rules md @ fst (collect_imports h (mod_imports md) ([], {mod_name md}))"
    using collect_rules_enter [OF assms(3), of "{}"] by (simp add: all_rules_of_def)
  have 2: "\<forall>i rest vis. fst (collect_imports h (i # rest) ([], vis)) =
            fst (collect_rules h i ([], vis)) @
            fst (collect_imports h rest ([], snd (collect_rules h i ([], vis))))"
    by (simp only: collect_imports_step fst_conv simp_thms)
  have 3: "\<forall>i acc vis. name_of h i \<in> vis \<longrightarrow> collect_rules h i (acc, vis) = (acc, vis)"
    by (simp add: collect_rules_skip)
  from all_rules_of_reachable [OF assms(1,2) v] obtain ms where
    r: "all_rules_of h m = concat (map (rules_at h) (m # ms))" and d: "distinct (m # ms)"
    and e: "set (m # ms) = (import_edges h)\<^sup>* `` {m}"
    by blast
  then have 4: "\<exists>ms. all_rules_of h m = concat (map (rules_at h) (m # ms)) \<and> distinct (m # ms) \<and>
               set (m # ms) = (import_edges h)\<^sup>* `` {m}"
    by blast
  have 5: "\<forall>i mdi vis. mod_at h i = Some mdi \<and> mod_name mdi \<notin> vis \<longrightarrow>
            collect_rules h i ([], vis) =
              (rules mdi @ fst (collect_imports h (mod_imports mdi) ([], insert (mod_name mdi) vis)),
               snd (collect_imports h (mod_imports mdi) ([], insert (mod_name mdi) vis)))"
    using collect_rules_enter by blast
  have 6: "\<forall>i rest vis. snd (collect_imports h (i # rest) ([], vis)) =
            snd (collect_imports h rest ([], snd (collect_rules h i ([], vis))))"
    by (simp only: collect_imports_step snd_conv simp_thms)
  have 7: "\<forall>vis. collect_imports h [] ([], vis) = ([], vis)"
    by simp
  have 8: "\<forall>i acc vis. collect_rules h i (acc, vis) =
            (acc @ fst (collect_rules h i ([], vis)), snd (collect_rules h i ([], vis)))"
    using collect_rules_acc by blast
  have 9: "\<forall>i acc vis. mod_at h i = None \<longrightarrow> collect_rules h i (acc, vis) = (acc, vis)"
    by (simp add: collect_rules_skip)
  from 1 2 3 4 5 6 7 8 9 show ?thesis by (intro conjI)
qed

theorem collect_preorder_once_witness:
  "heap_ok demo_heap \<and> names_unique demo_heap \<and>
   mod_at demo_heap 1 = Some \<lparr>mod_name = ''Finance'', rules = [1, 2], mod_imports = [0, 2]\<rparr> \<and>
   (1, 0) \<in> import_edges demo_heap \<and> (0, 1) \<in> import_edges demo_heap \<and>
   (1, 2) \<in> import_edges demo_heap \<and> (2, 0) \<in> import_edges demo_heap \<and>
   all_rules_of demo_heap 1 = [1, 2, 0, 3] \<and>
   all_rules_of demo_heap 1 =
     [1, 2] @ fst (collect_imports demo_heap [0, 2] ([], {''Finance''})) \<and>
   (\<exists>ms. all_rules_of demo_heap 1 = concat (map (rules_at demo_heap) (1 # ms)) \<and>
         distinct (1 # ms) \<and> set (1 # ms) = (import_edges demo_heap)\<^sup>* `` {1}) \<and>
   heap_ok tree_heap \<and> names_unique tree_heap \<and>
   mod_at tree_heap 0 = Some \<lparr>mod_name = ''Root'', rules = [0], mod_imports = [1]\<rparr> \<and>
   mod_at tree_heap 1 = Some \<lparr>mod_name = ''A'', rules = [1], mod_imports = [2, 3]\<rparr> \<and>
   ''A'' \<notin> {''Root''} \<and>
   all_rules_of tree_heap 0 = [0, 1, 2, 3] \<and>
   all_rules_of tree_heap 0 = [0] @ fst (collect_imports tree_heap [1] ([], {''Root''})) \<and>
   collect_rules tree_heap 1 ([], {''Root''}) =
     ([1] @ fst (collect_imports tree_heap [2, 3] ([], insert ''A'' {''Root''})),
      snd (collect_imports tree_heap [2, 3] ([], insert ''A'' {''Root''}))) \<and>
   fst (collect_imports tree_heap (2 # [3]) ([], insert ''A'' {''Root''})) =
     fst (collect_rules tree_heap 2 ([], insert ''A'' {''Root''})) @
     fst (collect_imports tree_heap [3]
            ([], snd (collect_rules tree_heap 2 ([], insert ''A'' {''Root''})))) \<and>
   fst (collect_rules tree_heap 1 ([], {''Root''})) = [1, 2, 3] \<and>
   fst (collect_rules tree_heap 2 ([], insert ''A'' {''Root''})) = [2]"
proof -
  have h3: "mod_at demo_heap 1 = Some \<lparr>mod_name = ''Finance'', rules = [1, 2], mod_imports = [0, 2]\<rparr>"
    by (simp add: mod_at_def demo_heap_def)
  have e: "(1, 0) \<in> import_edges demo_heap" "(0, 1) \<in> import_edges demo_heap"
    "(1, 2) \<in> import_edges demo_heap" "(2, 0) \<in> import_edges demo_heap"
    by (simp_all add: import_edges_def mod_at_def demo_heap_def)
  note c = collect_preorder_once [OF demo_heap_ok demo_names_unique h3]
  from c have "all_rules_of demo_heap 1 =
     rules \<lparr>mod_name = ''Finance'', rules = [1, 2], mod_imports = [0, 2]\<rparr> @
     fst (collect_imports demo_heap
            (mod_imports \<lparr>mod_name = ''Finance'', rules = [1, 2], mod_imports = [0, 2]\<rparr>)
            ([], {mod_name \<lparr>mod_name = ''Finance'', rules = [1, 2], mod_imports = [0, 2]\<rparr>}))"
    by (rule conjunct1)
  then have c1: "all_rules_of demo_heap 1 =
     [1, 2] @ fst (collect_imports demo_heap [0, 2] ([], {''Finance''}))"
    by simp
  have c4: "\<exists>ms. all_rules_of demo_heap 1 = concat (map (rules_at demo_heap) (1 # ms)) \<and>
         distinct (1 # ms) \<and> set (1 # ms) = (import_edges demo_heap)\<^sup>* `` {1}"
    by (rule c [THEN conjunct2, THEN conjunct2, THEN conjunct2, THEN conjunct1])
  have t0: "mod_at tree_heap 0 = Some \<lparr>mod_name = ''Root'', rules = [0], mod_imports = [1]\<rparr>"
    and t1: "mod_at tree_heap 1 = Some \<lparr>mod_name = ''A'', rules = [1], mod_imports = [2, 3]\<rparr>"
    by (simp_all add: mod_at_def tree_heap_def)
  have fresh: "''A'' \<notin> {''Root''}" by simp
  note d = collect_preorder_once [OF tree_heap_ok tree_names_unique t0]
  from d have "all_rules_of tree_heap 0 =
     rules \<lparr>mod_name = ''Root'', rules = [0], mod_imports = [1]\<rparr> @
     fst (collect_imports tree_heap
            (mod_imports \<lparr>mod_name = ''Root'', rules = [0], mod_imports = [1]\<rparr>)
            ([], {mod_name \<lparr>mod_name = ''Root'', rules = [0], mod_imports = [1]\<rparr>}))"
    by (rule conjunct1)
  then have d1: "all_rules_of tree_heap 0 = [0] @ fst (collect_imports tree_heap [1] ([], {''Root''}))"
    by simp
  note step = d [THEN conjunct2, THEN conjunct2, THEN conjunct2, THEN conjunct2, THEN conjunct1]
  from step [rule_format, of 1 "\<lparr>mod_name = ''A'', rules = [1], mod_imports = [2, 3]\<rparr>" "{''Root''}"]
    t1 fresh
  have d5: "collect_rules tree_heap 1 ([], {''Root''}) =
     ([1] @ fst (collect_imports tree_heap [2, 3] ([], insert ''A'' {''Root''})),
      snd (collect_imports tree_heap [2, 3] ([], insert ''A'' {''Root''})))"
    by simp
  have d2: "fst (collect_imports tree_heap (2 # [3]) ([], insert ''A'' {''Root''})) =
     fst (collect_rules tree_heap 2 ([], insert ''A'' {''Root''})) @
     fst (collect_imports tree_heap [3]
            ([], snd (collect_rules tree_heap 2 ([], insert ''A'' {''Root''}))))"
    by (rule d [THEN conjunct2, THEN conjunct1, rule_format])
  have v: "fst (collect_rules tree_heap 1 ([], {''Root''})) = [1, 2, 3]"
    "fst (collect_rules tree_heap 2 ([], insert ''A'' {''Root''})) = [2]"
    by (simp_all add: tree_heap_def collect_rules.simps mod_at_def)
  from demo_heap_ok demo_names_unique h3 e demo_all_rules c1 c4
    tree_heap_ok tree_names_unique t0 t1 fresh tree_all_rules d1 d5 d2 v
  show ?thesis by (intro conjI)
qed

text \<open>
  C8. A rule whose predicate raises on the arguments is skipped by the loop: checking it
  first changes nothing about how the loop ends, the loop never leaves through the hard or
  the soft branch for that rule, and \<^verbatim>\<open>validate\<close> returns with the rule object as it was,
  its \<open>active\<close> flag included. Verdict and printed lines are those of the same call on
  the store in which the rule is switched off, so the rule counts neither as passed nor as
  failed and nothing is printed for it.
\<close>

theorem raising_predicate_skipped:
  assumes "rule_at h r = Some rule" and "logic rule args = None"
  shows "check_rules h args (r # rs) = check_rules h args rs \<and>
         check_rules h args rs' \<noteq> HardStop r \<and> check_rules h args rs' \<noteq> SoftFix r \<and>
         rule_at (snd (snd (validate mn fn func args sys h))) r = Some rule \<and>
         fst (validate mn fn func args sys h) = fst (validate mn fn func args sys (deactivate r h)) \<and>
         fst (snd (validate mn fn func args sys h)) =
           fst (snd (validate mn fn func args sys (deactivate r h)))"
proof -
  have 1: "check_rules h args (r # rs) = check_rules h args rs"
    using assms by (rule check_rules_skip_raising)
  have 2: "check_rules h args rs' \<noteq> HardStop r \<and> check_rules h args rs' \<noteq> SoftFix r"
    using assms by (rule check_rules_never_raising)
  note v = validate_raising_rule [OF assms, of mn fn func sys]
  from 1 2 v show ?thesis by simp
qed

theorem raising_predicate_skipped_witness:
  "rule_at demo_heap 1 = Some (demo_rules ! 1) \<and> active (demo_rules ! 1) \<and>
   logic (demo_rules ! 1) [100, 5] = None \<and>
   check_rules demo_heap [100, 5] (1 # [2, 0, 3]) = check_rules demo_heap [100, 5] [2, 0, 3] \<and>
   rule_at (snd (snd (validate ''Finance'' ''calc'' multiply [100, 5] demo_sys demo_heap))) 1 =
     Some (demo_rules ! 1) \<and>
   fst (validate ''Finance'' ''calc'' multiply [100, 5] demo_sys demo_heap) =
     fst (validate ''Finance'' ''calc'' multiply [100, 5] demo_sys (deactivate 1 demo_heap))"
proof -
  have h1: "rule_at demo_heap 1 = Some (demo_rules ! 1)"
    by (simp add: rule_at_def demo_heap_def demo_rules_def)
  have h2: "logic (demo_rules ! 1) [100, 5] = None" and a: "active (demo_rules ! 1)"
    by (simp_all add: demo_rules_def)
  note c = raising_predicate_skipped
      [where h = demo_heap and r = 1 and rule = "demo_rules ! 1" and args = "[100, 5]"
         and rs = "[2, 0, 3]" and rs' = "[]" and mn = "''Finance''" and fn = "''calc''"
         and func = multiply and sys = demo_sys, OF h1 h2]
  from c h1 h2 a show ?thesis by blast
qed

text \<open>
  C10. The collector reads no rule object: its result is the same for any contents of the
  rule store, in particular after a rule is switched off, and it contains every rule of
  the root module. The \<^verbatim>\<open>[Audit]\<close> line of \<^verbatim>\<open>validate\<close> reports the length of that list,
  inactive rules included; the \<open>active\<close> flag is looked at only in the loop, which skips
  an inactive rule.
\<close>

theorem collector_keeps_inactive:
  assumes "get_module sys mn = Some tm" and "func args = Some res"
  shows "all_rules_of (h\<lparr>rule_objs := rs\<rparr>) tm = all_rules_of h tm \<and>
         all_rules_of (deactivate r h) tm = all_rules_of h tm \<and>
         (\<forall>md. mod_at h tm = Some md \<longrightarrow> set (rules md) \<subseteq> set (all_rules_of h tm)) \<and>
         (\<exists>out'. fst (snd (validate mn fn func args sys h)) =
            [ValidationIn mn, FunctionLine fn, ResultLine res, Audit (length (all_rules_of h tm))]
            @ out') \<and>
         (\<forall>x xs. \<not> is_active h x \<longrightarrow> check_rules h args (x # xs) = check_rules h args xs)"
proof -
  have 1: "all_rules_of (h\<lparr>rule_objs := rs\<rparr>) tm = all_rules_of h tm"
    by (rule collect_rules_any_rules)
  have 2: "all_rules_of (deactivate r h) tm = all_rules_of h tm"
    by simp
  have 3: "\<forall>md. mod_at h tm = Some md \<longrightarrow> set (rules md) \<subseteq> set (all_rules_of h tm)"
    using all_rules_of_root [of h tm] by auto
  have 4: "\<exists>out'. fst (snd (validate mn fn func args sys h)) =
            [ValidationIn mn, FunctionLine fn, ResultLine res, Audit (length (all_rules_of h tm))]
            @ out'"
    using assms by (rule validate_head)
  have 5: "\<forall>x xs. \<not> is_active h x \<longrightarrow> check_rules h args (x # xs) = check_rules h args xs"
    using check_rules_skip_inactive by blast
  from 1 2 3 4 5 show ?thesis by blast
qed

theorem collector_keeps_inactive_witness:
  "get_module demo_sys ''Finance'' = Some 1 \<and> multiply [100, 10] = Some 1000 \<and>
   \<not> is_active demo_relaxed 2 \<and> \<not> is_active demo_relaxed 3 \<and>
   all_rules_of demo_relaxed 1 = [1, 2, 0, 3] \<and>
   all_rules_of (deactivate 2 demo_heap) 1 = all_rules_of demo_heap 1 \<and>
   fst (snd (validate ''Finance'' ''calc'' multiply [100, 10] demo_sys demo_relaxed)) =
     [ValidationIn ''Finance'', FunctionLine ''calc'', ResultLine 1000, Audit 4, StatusAccept] \<and>
   check_rules demo_relaxed [100, 10] (2 # [0, 3]) = check_rules demo_relaxed [100, 10] [0, 3]"
proof -
  have h1: "get_module demo_sys ''Finance'' = Some 1"
    by (simp add: get_module_def demo_sys_def)
  have h2: "multiply [100, 10] = Some 1000"
    by (simp add: multiply_def)
  have i: "\<not> is_active demo_relaxed 2" "\<not> is_active demo_relaxed 3"
    by code_simp+
  have a: "all_rules_of demo_relaxed 1 = [1, 2, 0, 3]"
    by code_simp
  have t: "fst (snd (validate ''Finance'' ''calc'' multiply [100, 10] demo_sys demo_relaxed)) =
     [ValidationIn ''Finance'', FunctionLine ''calc'', ResultLine 1000, Audit 4, StatusAccept]"
    by code_simp
  note c = collector_keeps_inactive
      [where sys = demo_sys and mn = "''Finance''" and tm = 1 and func = multiply
         and args = "[100, 10]" and res = 1000, OF h1 h2]
  from c [where h = demo_heap and r = 2]
  have d: "all_rules_of (deactivate 2 demo_heap) 1 = all_rules_of demo_heap 1" by blast
  from c [where h = demo_relaxed] i(1)
  have s: "check_rules demo_relaxed [100, 10] (2 # [0, 3]) = check_rules demo_relaxed [100, 10] [0, 3]"
    by blast
  from h1 h2 i a d t s show ?thesis by blast
qed

text \<open>
  C6. Creating a module under a name that the registry already holds should return the
  module object that is there, with its rules. \<^verbatim>\<open>create_module\<close> of
  \<^verbatim>\<open>phi_import_system.py\<close> does so (lemma \<open>create_module_existing\<close>: same object, store
  unchanged). \<^verbatim>\<open>create_module\<close> of \<^verbatim>\<open>phi_modular_system.py\<close> does not: called a second
  time with the name \<open>Arithmetic\<close>, after a rule was added to the first module, it
  returns a new object without rules and registers it under the name in place of the
  first.
\<close>

theorem create_module_modular_replaces:
  "fst modular_first = 0 \<and>
   modules (fst (snd modular_first)) ''Arithmetic'' = Some 0 \<and>
   fst modular_second = 1 \<and>
   modules (fst (snd modular_second)) ''Arithmetic'' = Some 1 \<and>
   current_module (fst (snd modular_second)) = Some 1 \<and>
   fst (snd (snd modular_second)) =
     [\<lparr>mod_name_modular = ''Arithmetic'', rules_modular = [0]\<rparr>,
      \<lparr>mod_name_modular = ''Arithmetic'', rules_modular = []\<rparr>] \<and>
   snd (snd (snd modular_second)) = [CreatingModule ''Arithmetic'']"
  by (simp add: modular_first_def modular_second_def create_module_modular_def
      add_rule_modular_def new_PhiSystem_def)




end
